theory Spec2Isabelle
  imports Complex_Main
begin

section \<open>Data model of \<open>triangulation.py\<close>\<close>

text \<open>
  A coordinate key is a Python tuple of numbers. The keys the program builds are the
  corners of the unit cube and midpoints of earlier keys, so every coordinate is a dyadic
  rational; the model takes \<open>rat\<close> for the coordinates and for the function values.

  Python objects are shared and mutated in place, so vertices and cells live in two
  stores (lists); a reference is the position of the object in its store, in order of
  allocation. Fields carry a prefix (\<open>v_\<close> for \<open>Vertex\<close>, \<open>c_\<close> for \<open>Cell\<close>,
  \<open>cx_\<close> for \<open>Complex\<close> and its \<open>VertexCache\<close>) because record fields are
  global names.
\<close>

type_synonym key = "rat list"
type_synonym vref = nat
type_synonym cref = nat

text \<open>
  The exception classes: the five that the program and the libraries it calls raise, and
  \<open>FuncError\<close> for any other class, which only an objective can raise.
\<close>

datatype error = TypeError | IndexError | KeyError | ValueError | AttributeError | FuncError

text \<open>
  The objective as the cache calls it: \<open>func\<close> together with the fixed \<open>func_args\<close>
  and \<open>bounds\<close> of the cache. A call returns a value (\<open>Inr\<close>) or raises an exception
  of some class (\<open>Inl\<close>); nothing restricts the class, so an objective can also raise
  the classes that the program catches.
\<close>

type_synonym objective = "key \<Rightarrow> error + rat"

text \<open>
  \<open>Vertex\<close>: \<open>self.nn\<close> is a Python set of vertices; the model keeps it as a
  duplicate-free list in insertion order. \<open>self.min\<close> does not exist until it is first
  assigned, hence the option.
\<close>

record vertex =
  v_x :: key
  v_order :: rat
  v_f :: rat
  v_nn :: "vref list"
  v_check_min :: bool
  v_min :: "bool option"
  v_I :: int

record cell =
  c_p_gen :: nat
  c_p_hgr :: "nat option"
  c_p_hgr_h :: nat
  c_hg_n :: "nat option"
  c_C :: "vref list"
  c_origin :: key
  c_suprenum :: key
  c_centroid :: "key option"

text \<open>
  The state of one \<open>Complex\<close> with its \<open>VertexCache\<close> (\<open>cx_cache\<close>, \<open>cx_Index\<close>),
  the two stores, and \<open>cx_calls\<close>, the log of the keys at which the objective has been
  invoked (the log is not a field of the program; it records the effect "the objective
  was called").
\<close>

record hc =
  cx_gen :: nat
  cx_H :: "cref list list"
  cx_C0 :: cref
  cx_origin :: key
  cx_suprenum :: key
  cx_centroid :: "key option"
  cx_hgr :: nat
  cx_hgrd :: int
  cx_graph :: "int list list"
  cx_cache :: "(key \<times> vref) list"
  cx_Index :: int
  cx_vertices :: "vertex list"
  cx_cells :: "cell list"
  cx_calls :: "key list"

text \<open>
  A method returns a value or raises, and its mutations stay in either case.
\<close>

type_synonym 'a M = "hc \<Rightarrow> (error + 'a) \<times> hc"

definition bind :: "'a M \<Rightarrow> ('a \<Rightarrow> 'b M) \<Rightarrow> 'b M" where
  "bind m k s = (case m s of (Inl e, s') \<Rightarrow> (Inl e, s') | (Inr a, s') \<Rightarrow> k a s')"

text \<open>
  Reading the state (an attribute, an element), changing it, and returning or raising a
  computed result.
\<close>

definition gets :: "(hc \<Rightarrow> 'a) \<Rightarrow> 'a M" where
  "gets g s = (Inr (g s), s)"

definition modify :: "(hc \<Rightarrow> hc) \<Rightarrow> unit M" where
  "modify g s = (Inr (), g s)"

definition lift :: "error + 'a \<Rightarrow> 'a M" where
  "lift r s = (r, s)"

fun for_each :: "'a list \<Rightarrow> ('a \<Rightarrow> unit M) \<Rightarrow> unit M" where
  "for_each [] body s = (Inr (), s)"
| "for_each (a # as) body s =
     (case body a s of (Inl e, s') \<Rightarrow> (Inl e, s') | (Inr u, s') \<Rightarrow> for_each as body s')"

text \<open>
  Indexing a Python list with an integer: positions \<open>0 .. len-1\<close> are read directly,
  positions \<open>-len .. -1\<close> are read from the end, any other raises \<open>IndexError\<close>.
\<close>

definition py_get :: "'a list \<Rightarrow> int \<Rightarrow> error + 'a" where
  "py_get xs i =
     (if 0 \<le> i \<and> i < int (length xs) then Inr (xs ! nat i)
      else if i < 0 \<and> - int (length xs) \<le> i then Inr (xs ! nat (int (length xs) + i))
      else Inl IndexError)"

definition upd_vertex :: "vref \<Rightarrow> (vertex \<Rightarrow> vertex) \<Rightarrow> hc \<Rightarrow> hc" where
  "upd_vertex r g s = s\<lparr>cx_vertices := (cx_vertices s)[r := g (cx_vertices s ! r)]\<rparr>"

definition upd_cell :: "cref \<Rightarrow> (cell \<Rightarrow> cell) \<Rightarrow> hc \<Rightarrow> hc" where
  "upd_cell c g s = s\<lparr>cx_cells := (cx_cells s)[c := g (cx_cells s ! c)]\<rparr>"

definition set_add :: "vref \<Rightarrow> vref list \<Rightarrow> vref list" where
  "set_add r xs = (if r \<in> set xs then xs else xs @ [r])"

section \<open>Vertex\<close>

text \<open>\<open>Vertex.minimiser\<close> (lines 1048-1056).\<close>

definition minimiser :: "vref \<Rightarrow> bool M" where
  "minimiser a s =
     (let v = cx_vertices s ! a in
      if v_check_min v then
        (let m = list_all (\<lambda>n. v_f v \<le> v_f (cx_vertices s ! n)) (v_nn v)
         in (Inr m, upd_vertex a (\<lambda>w. w\<lparr>v_min := Some m, v_check_min := False\<rparr>) s))
      else (case v_min v of None \<Rightarrow> (Inl AttributeError, s) | Some m \<Rightarrow> (Inr m, s)))"

text \<open>\<open>Vertex.connect\<close> (lines 1029-1040): \<open>a\<close> is \<open>self\<close>, \<open>b\<close> is \<open>v\<close>.\<close>

definition connect :: "vref \<Rightarrow> vref \<Rightarrow> unit M" where
  "connect a b s =
     (if b \<noteq> a \<and> b \<notin> set (v_nn (cx_vertices s ! a)) then
        (let s1 = upd_vertex a (\<lambda>w. w\<lparr>v_nn := set_add b (v_nn w)\<rparr>) s;
             s2 = upd_vertex b (\<lambda>w. w\<lparr>v_nn := set_add a (v_nn w)\<rparr>) s1
         in case minimiser a s2 of
              (Inl e, s3) \<Rightarrow> (Inl e, s3)
            | (Inr m, s3) \<Rightarrow>
                if m then (Inr (), upd_vertex b (\<lambda>w. w\<lparr>v_min := Some False, v_check_min := False\<rparr>) s3)
                else (Inr (), s3))
      else (Inr (), s))"

text \<open>
  \<open>Vertex.disconnect\<close> (lines 1042-1046). \<open>set.remove\<close> raises \<open>KeyError\<close> when the
  element is absent.
\<close>

definition disconnect :: "vref \<Rightarrow> vref \<Rightarrow> unit M" where
  "disconnect a b s =
     (if b \<in> set (v_nn (cx_vertices s ! a)) then
        (let s1 = upd_vertex a (\<lambda>w. w\<lparr>v_nn := removeAll b (v_nn w)\<rparr>) s
         in if a \<in> set (v_nn (cx_vertices s1 ! b)) then
              (let s2 = upd_vertex b (\<lambda>w. w\<lparr>v_nn := removeAll a (v_nn w)\<rparr>) s1
               in (Inr (), upd_vertex a (\<lambda>w. w\<lparr>v_check_min := True\<rparr>) s2))
            else (Inl KeyError, s1))
      else (Inr (), s))"

section \<open>VertexCache\<close>

text \<open>
  \<open>Vertex.__init__\<close> (lines 995-1021) as the cache calls it: the objective is invoked
  on the key (line 1009, no handler around it), and the new object exists only if the call
  returns; otherwise the exception of the objective propagates.
\<close>

definition Vertex_init :: "objective \<Rightarrow> key \<Rightarrow> int \<Rightarrow> vref M" where
  "Vertex_init F k idx s =
     (let s1 = s\<lparr>cx_calls := cx_calls s @ [k]\<rparr> in
      case F k of
        Inl e \<Rightarrow> (Inl e, s1)
      | Inr y \<Rightarrow>
          (Inr (length (cx_vertices s1)),
           s1\<lparr>cx_vertices := cx_vertices s1 @
                 [\<lparr>v_x = k, v_order = sum_list k, v_f = y, v_nn = [],
                   v_check_min = True, v_min = None, v_I = idx\<rparr>]\<rparr>))"

text \<open>\<open>VertexCache.__getitem__\<close> (lines 1071-1087), with \<open>indexed=True\<close>.\<close>

definition V_getitem :: "objective \<Rightarrow> key \<Rightarrow> vref M" where
  "V_getitem F k s =
     (case map_of (cx_cache s) k of
        Some r \<Rightarrow> (Inr r, s)
      | None \<Rightarrow>
          (let s1 = s\<lparr>cx_Index := cx_Index s + 1\<rparr> in
           case Vertex_init F k (cx_Index s1) s1 of
             (Inl e, s2) \<Rightarrow> (Inl e, s2)
           | (Inr r, s2) \<Rightarrow> (Inr r, s2\<lparr>cx_cache := cx_cache s2 @ [(k, r)]\<rparr>)))"

section \<open>Cell\<close>

text \<open>\<open>Cell.__init__\<close> (lines 847-860) allocates the cell object.\<close>

definition Cell_init :: "nat \<Rightarrow> nat option \<Rightarrow> nat \<Rightarrow> key \<Rightarrow> key \<Rightarrow> cref M" where
  "Cell_init g hgr hgr_h origin suprenum s =
     (Inr (length (cx_cells s)),
      s\<lparr>cx_cells := cx_cells s @
            [\<lparr>c_p_gen = g, c_p_hgr = hgr, c_p_hgr_h = hgr_h, c_hg_n = None, c_C = [],
              c_origin = origin, c_suprenum = suprenum, c_centroid = None\<rparr>]\<rparr>)"

text \<open>
  \<open>Cell.add_vertex\<close> (lines 867-869). \<open>Vertex\<close> defines no \<open>__eq__\<close>, so
  \<open>V not in self.C\<close> compares object identity.
\<close>

definition add_vertex :: "cref \<Rightarrow> vref \<Rightarrow> unit M" where
  "add_vertex c r s =
     (if r \<notin> set (c_C (cx_cells s ! c))
      then (Inr (), upd_cell c (\<lambda>w. w\<lparr>c_C := c_C w @ [r]\<rparr>) s)
      else (Inr (), s))"

text \<open>\<open>Cell.homology_group_rank\<close> (lines 871-884); the loop is \<open>count_minimisers\<close>.\<close>

fun count_minimisers :: "vref list \<Rightarrow> nat \<Rightarrow> nat M" where
  "count_minimisers [] n s = (Inr n, s)"
| "count_minimisers (v # vs) n s =
     (case minimiser v s of
        (Inl e, s') \<Rightarrow> (Inl e, s')
      | (Inr m, s') \<Rightarrow> count_minimisers vs (if m then n + 1 else n) s')"

definition homology_group_rank :: "cref \<Rightarrow> nat M" where
  "homology_group_rank c s =
     (case c_hg_n (cx_cells s ! c) of
        Some n \<Rightarrow> (Inr n, s)
      | None \<Rightarrow>
          (case count_minimisers (c_C (cx_cells s ! c)) 0 s of
             (Inl e, s') \<Rightarrow> (Inl e, s')
           | (Inr n, s') \<Rightarrow> (Inr n, upd_cell c (\<lambda>w. w\<lparr>c_hg_n := Some n\<rparr>) s')))"

section \<open>Complex: the initial cell\<close>

lemma bind_cong [fundef_cong]:
  assumes "m s = m' s'" and "\<And>a t. m' s' = (Inr a, t) \<Longrightarrow> k a t = k' a t"
  shows "bind m k s = bind m' k' s'"
  using assms by (auto simp: bind_def split: prod.splits sum.splits)

lemma for_each_cong [fundef_cong]:
  assumes "xs = ys" and "\<And>a t. a \<in> set ys \<Longrightarrow> body a t = body' a t" and "s = s'"
  shows "for_each xs body s = for_each ys body' s'"
  using assms
proof (induction xs arbitrary: ys s s')
  case Nil
  then show ?case by simp
next
  case (Cons a as)
  then show ?case by (auto split: prod.splits sum.splits)
qed

text \<open>\<open>self.C0.add_vertex(v)\<close>: the attribute \<open>self.C0\<close> is read at the call.\<close>

definition C0_add_vertex :: "vref \<Rightarrow> unit M" where
  "C0_add_vertex r = bind (gets cx_C0) (\<lambda>c. add_vertex c r)"

text \<open>
  The part shared by the loop body of \<open>perm\<close> (lines 116-124) and by \<open>perm_symmetry\<close>
  (lines 139-147): the new key \<open>xi2\<close> joins the initial cell and is connected to its
  parent \<open>xi\<close> and to every key of \<open>x_parents\<close>. Every \<open>self.V[...]\<close> is a lookup.
\<close>

definition perm_step :: "objective \<Rightarrow> key list \<Rightarrow> key \<Rightarrow> key \<Rightarrow> unit M" where
  "perm_step F x_parents xi xi2 =
     bind (V_getitem F xi2) (\<lambda>r.
     bind (C0_add_vertex r) (\<lambda>u.
     bind (V_getitem F xi2) (\<lambda>r2.
     bind (V_getitem F xi) (\<lambda>p.
     bind (connect r2 p) (\<lambda>u.
     for_each x_parents (\<lambda>x_ip.
       bind (V_getitem F xi2) (\<lambda>r3.
       bind (V_getitem F x_ip) (\<lambda>q. connect r3 q))))))))"

text \<open>
  \<open>Complex.perm\<close> (lines 102-130). \<open>self.dim\<close> is assigned once, in \<open>__init__\<close>, and
  is passed as \<open>d\<close>. \<open>xi2[i] = 1\<close> raises \<open>IndexError\<close> outside the list.
\<close>

function perm :: "objective \<Rightarrow> nat \<Rightarrow> nat list \<Rightarrow> key list \<Rightarrow> key \<Rightarrow> unit M" where
  "perm F d i_parents x_parents xi s =
     for_each (filter (\<lambda>x. x \<notin> set i_parents) [0..<d])
       (\<lambda>i s1.
          if i < length xi then
            bind (perm_step F x_parents xi (xi[i := 1]))
              (\<lambda>u s2. perm F d (i_parents @ [i]) (x_parents @ [xi]) (xi[i := 1]) s2) s1
          else (Inl IndexError, s1)) s"
  by pat_completeness auto
termination
proof (relation "measure (\<lambda>(F, d, i_parents, x_parents, xi, s). card ({0..<d} - set i_parents))",
    goal_cases)
  case 1
  show ?case by simp
next
  case (2 F d i_parents x_parents xi s i s1 u s2)
  then have i: "i < d" "i \<notin> set i_parents" by auto
  have "{0..<d} - set (i_parents @ [i]) \<subseteq> {0..<d} - set i_parents"
    by auto
  moreover have "i \<in> {0..<d} - set i_parents" "i \<notin> {0..<d} - set (i_parents @ [i])"
    using i by simp_all
  ultimately have "{0..<d} - set (i_parents @ [i]) \<subset> {0..<d} - set i_parents"
    by blast
  then have "card ({0..<d} - set (i_parents @ [i])) < card ({0..<d} - set i_parents)"
    by (intro psubset_card_mono) auto
  then show ?case by simp
qed

text \<open>\<open>Complex.perm_symmetry\<close> (lines 132-156).\<close>

function perm_symmetry :: "objective \<Rightarrow> nat \<Rightarrow> nat \<Rightarrow> key list \<Rightarrow> key \<Rightarrow> unit M" where
  "perm_symmetry F d i_s x_parents xi s =
     (if i_s < length xi then
        bind (perm_step F x_parents xi (xi[i_s := 1]))
          (\<lambda>u s2. if i_s + 1 = d then (Inr (), s2)
                   else perm_symmetry F d (i_s + 1) (x_parents @ [xi]) (xi[i_s := 1]) s2) s
      else (Inl IndexError, s))"
  by pat_completeness auto
termination
proof (relation "measure (\<lambda>(F, d, i_s, x_parents, xi, s). length xi - i_s)", goal_cases)
  case 1
  show ?case by simp
next
  case (2 F d i_s x_parents xi s u s2)
  from \<open>i_s < length xi\<close> show ?case by simp
qed

declare perm.simps [simp del]
declare perm_symmetry.simps [simp del]

text \<open>
  \<open>Complex.n_cube\<close> (lines 65-100). \<open>numpy.zeros(dim)\<close> raises \<open>ValueError\<close> for a
  negative \<open>dim\<close> (here \<open>dm\<close>). The printout does not change the state and is
  left out.
\<close>

definition n_cube :: "objective \<Rightarrow> int \<Rightarrow> bool \<Rightarrow> unit M" where
  "n_cube F dm symmetry =
     (if dm < 0 then lift (Inl ValueError)
      else
        bind (modify (\<lambda>s. s\<lparr>cx_origin := replicate (nat dm) 0,
                               cx_suprenum := replicate (nat dm) 1\<rparr>)) (\<lambda>u.
        bind (Cell_init 0 (Some 0) 0 (replicate (nat dm) 0) (replicate (nat dm) 1)) (\<lambda>c.
        bind (modify (\<lambda>s. s\<lparr>cx_C0 := c\<rparr>)) (\<lambda>u.
        bind (V_getitem F (replicate (nat dm) 0)) (\<lambda>r.
        bind (C0_add_vertex r) (\<lambda>u.
        bind (V_getitem F (replicate (nat dm) 1)) (\<lambda>r'.
        bind (C0_add_vertex r') (\<lambda>u.
          if symmetry
          then perm_symmetry F (nat dm) 0 [replicate (nat dm) 0] (replicate (nat dm) 0)
          else perm F (nat dm) [] [replicate (nat dm) 0] (replicate (nat dm) 0)))))))))"

text \<open>\<open>Complex.graph_map\<close> (lines 231-239).\<close>

definition graph_map :: "unit M" where
  "graph_map =
     modify (\<lambda>s. s\<lparr>cx_graph :=
       map (\<lambda>v. map (\<lambda>v2. v_I (cx_vertices s ! v2)) (v_nn (cx_vertices s ! v)))
         (c_C (cx_cells s ! cx_C0 s))\<rparr>)"

text \<open>
  The state after lines 19-32 of \<open>Complex.__init__\<close>: nothing stored, an empty cache
  with \<open>Index = -1\<close>. The attributes that \<open>n_cube\<close>, \<open>graph_map\<close> and line 50 assign
  first (\<open>C0\<close>, \<open>origin\<close>, \<open>suprenum\<close>, \<open>graph\<close>, \<open>hgr\<close>) hold placeholders until then.
\<close>

definition init_state :: hc where
  "init_state =
     \<lparr>cx_gen = 0, cx_H = [], cx_C0 = 0, cx_origin = [], cx_suprenum = [],
      cx_centroid = None, cx_hgr = 0, cx_hgrd = 0, cx_graph = [], cx_cache = [],
      cx_Index = - 1, cx_vertices = [], cx_cells = [], cx_calls = []\<rparr>"

text \<open>
  Lines 42-44: with symmetry the "centroid" of the initial cell is the coordinate of its
  last vertex.
\<close>

definition set_symmetry_centroid :: "unit M" where
  "set_symmetry_centroid =
     bind (gets (\<lambda>s. c_C (cx_cells s ! cx_C0 s))) (\<lambda>C.
     bind (lift (py_get C (- 1))) (\<lambda>v.
     bind (gets (\<lambda>s. v_x (cx_vertices s ! v))) (\<lambda>k.
     bind (modify (\<lambda>s. s\<lparr>cx_centroid := Some k\<rparr>)) (\<lambda>u.
     bind (gets cx_C0) (\<lambda>c.
     modify (upd_cell c (\<lambda>w. w\<lparr>c_centroid := Some k\<rparr>)))))))"

text \<open>Lines 48-49: \<open>self.H.append([])\<close>, \<open>self.H[0].append(self.C0)\<close>.\<close>

definition store_C0 :: "unit M" where
  "store_C0 =
     bind (modify (\<lambda>s. s\<lparr>cx_H := cx_H s @ [[]]\<rparr>)) (\<lambda>u.
     modify (\<lambda>s. s\<lparr>cx_H := (cx_H s)[0 := cx_H s ! 0 @ [cx_C0 s]]\<rparr>))"

text \<open>
  \<open>Complex.__init__\<close> (lines 18-59): the result is the raised error or the constructed
  complex.
\<close>

definition Complex_init :: "objective \<Rightarrow> int \<Rightarrow> bool \<Rightarrow> (error + unit) \<times> hc" where
  "Complex_init F dm symmetry =
     bind (n_cube F dm symmetry) (\<lambda>u.
     bind (if symmetry then set_symmetry_centroid else lift (Inr ())) (\<lambda>u.
     bind store_C0 (\<lambda>u.
     bind (gets cx_C0) (\<lambda>c.
     bind (homology_group_rank c) (\<lambda>n.
     bind (modify (\<lambda>s. s\<lparr>cx_hgr := n, cx_hgrd := 0\<rparr>)) (\<lambda>u.
     graph_map))))))
     init_state"

section \<open>Complex: subdivision\<close>

text \<open>
  Elementwise arithmetic of one-dimensional \<open>numpy\<close> arrays: equal lengths, or one
  operand of length 1 that is broadcast; \<open>ValueError\<close> otherwise.
\<close>

definition np_op :: "(rat \<Rightarrow> rat \<Rightarrow> rat) \<Rightarrow> key \<Rightarrow> key \<Rightarrow> error + key" where
  "np_op g a b =
     (if length a = length b then Inr (map2 g a b)
      else if length a = 1 then Inr (map (g (hd a)) b)
      else if length b = 1 then Inr (map (\<lambda>y. g y (hd b)) a)
      else Inl ValueError)"

definition sbind :: "error + 'a \<Rightarrow> ('a \<Rightarrow> error + 'b) \<Rightarrow> error + 'b" where
  "sbind r k = (case r of Inl e \<Rightarrow> Inl e | Inr a \<Rightarrow> k a)"

text \<open>Line 388: \<open>(numpy.array(origin) + numpy.array(suprenum))/2.0\<close>.\<close>

definition midpoint_key :: "key \<Rightarrow> key \<Rightarrow> error + key" where
  "midpoint_key origin suprenum =
     sbind (np_op (+) origin suprenum) (\<lambda>w. Inr (map (\<lambda>y. y / 2) w))"

text \<open>
  Lines 397-400: \<open>generate_sub_cell_t1(origin, v.x) + generate_sub_cell_t2(suprenum, v.x)\<close>,
  that is \<open>(origin - origin * v.x) + suprenum * v.x\<close> (the \<open>lru_cache\<close> of the two pure
  helpers changes no result).
\<close>

definition sub_cell_vec :: "key \<Rightarrow> key \<Rightarrow> key \<Rightarrow> error + key" where
  "sub_cell_vec origin suprenum vx =
     sbind (np_op (*) origin vx) (\<lambda>ov.
     sbind (np_op (-) origin ov) (\<lambda>t1.
     sbind (np_op (*) suprenum vx) (\<lambda>t2.
     np_op (+) t1 t2)))"

text \<open>A \<open>for\<close> loop that also builds a local list or value (\<open>V_new\<close>, \<open>H_new\<close>).\<close>

fun for_acc :: "'a list \<Rightarrow> ('a \<Rightarrow> 'b \<Rightarrow> 'b M) \<Rightarrow> 'b \<Rightarrow> 'b M" where
  "for_acc [] body acc s = (Inr acc, s)"
| "for_acc (a # as) body acc s =
     (case body a acc s of
        (Inl e, s') \<Rightarrow> (Inl e, s')
      | (Inr acc', s') \<Rightarrow> for_acc as body acc' s')"

definition enumerate_from0 :: "'a list \<Rightarrow> (nat \<times> 'a) list" where
  "enumerate_from0 xs = zip [0..<length xs] xs"

text \<open>
  Line 414 of \<open>construct_hypercube\<close>, one entry \<open>j\<close> of row \<open>i\<close> of the adjacency
  template: \<open>self.V[V_new[i]].connect(self.V[V_new[j]])\<close>.
\<close>

definition replay_entry :: "objective \<Rightarrow> key list \<Rightarrow> nat \<Rightarrow> int \<Rightarrow> unit M" where
  "replay_entry F V_new i j =
     bind (lift (py_get V_new (int i))) (\<lambda>ki.
     bind (V_getitem F ki) (\<lambda>a.
     bind (lift (py_get V_new j)) (\<lambda>kj.
     bind (V_getitem F kj) (\<lambda>b. connect a b))))"

text \<open>
  Lines 411-414 of \<open>construct_hypercube\<close>: the adjacency template \<open>self.graph\<close> is
  replayed on the keys of \<open>V_new\<close>.
\<close>

definition connect_template :: "objective \<Rightarrow> key list \<Rightarrow> unit M" where
  "connect_template F V_new =
     bind (gets cx_graph) (\<lambda>graph.
     for_each (enumerate_from0 graph) (\<lambda>(i, connections).
       for_each connections (\<lambda>j. replay_entry F V_new i j)))"

text \<open>
  Lines 396-404 of \<open>construct_hypercube\<close>: one key per vertex \<open>v\<close> of \<open>self.C0()[:-1]\<close>
  (here \<open>vs\<close>), the blend \<open>origin * (1 - v.x) + suprenum * v.x\<close>; its vertex joins the new
  cell, and the key is appended to \<open>V_new\<close>.
\<close>

definition build_V_new :: "objective \<Rightarrow> key \<Rightarrow> key \<Rightarrow> cref \<Rightarrow> vref list \<Rightarrow> key list M" where
  "build_V_new F origin suprenum C_new vs =
     for_acc vs (\<lambda>v V_new.
       bind (gets (\<lambda>s. v_x (cx_vertices s ! v))) (\<lambda>vx.
       bind (lift (sub_cell_vec origin suprenum vx)) (\<lambda>vec.
       bind (V_getitem F vec) (\<lambda>r.
       bind (add_vertex C_new r) (\<lambda>u.
       lift (Inr (V_new @ [vec]))))))) []"

text \<open>\<open>Complex.construct_hypercube\<close> (lines 374-434), without the printout.\<close>

definition construct_hypercube ::
    "objective \<Rightarrow> key \<Rightarrow> key \<Rightarrow> nat \<Rightarrow> nat option \<Rightarrow> nat \<Rightarrow> cref M" where
  "construct_hypercube F origin suprenum g hgr p_hgr_h =
     bind (Cell_init g hgr p_hgr_h origin suprenum) (\<lambda>C_new.
     bind (lift (midpoint_key origin suprenum)) (\<lambda>centroid.
     bind (modify (upd_cell C_new (\<lambda>w. w\<lparr>c_centroid := Some centroid\<rparr>))) (\<lambda>u.
     bind (gets (\<lambda>s. butlast (c_C (cx_cells s ! cx_C0 s)))) (\<lambda>vs.
     bind (build_V_new F origin suprenum C_new vs) (\<lambda>V_new.
     bind (V_getitem F centroid) (\<lambda>r.
     bind (add_vertex C_new r) (\<lambda>u.
     bind (connect_template F (V_new @ [centroid])) (\<lambda>u.
     bind (gets cx_H) (\<lambda>H.
     bind (if g < length H then modify (\<lambda>s. s\<lparr>cx_H := (cx_H s)[g := cx_H s ! g @ [C_new]]\<rparr>)
           else lift (Inl IndexError)) (\<lambda>u.
     lift (Inr C_new)))))))))))"

text \<open>
  Lines 280-286 of \<open>sub_generate_cell\<close>: the template edges of the parent cell are
  removed; the loop stops at the centroid's position.
\<close>

definition disconnect_template :: "cref \<Rightarrow> int \<Rightarrow> unit M" where
  "disconnect_template C_i centroid_index =
     bind (gets cx_graph) (\<lambda>graph.
     for_each (takeWhile (\<lambda>(i, connections). int i \<noteq> centroid_index) (enumerate_from0 graph))
       (\<lambda>(i, connections).
          for_each connections (\<lambda>j.
            bind (gets (\<lambda>s. c_C (cx_cells s ! C_i))) (\<lambda>C.
            bind (lift (py_get C (int i))) (\<lambda>a.
            bind (gets (\<lambda>s. c_C (cx_cells s ! C_i))) (\<lambda>C'.
            bind (lift (py_get C' j)) (\<lambda>b.
            disconnect a b)))))))"

text \<open>
  \<open>Complex.sub_generate_cell\<close> (lines 249-293). \<open>tuple(C_i.centroid)\<close> raises
  \<open>TypeError\<close> when the centroid is \<open>None\<close>. The result is \<open>H_new\<close>.
\<close>

definition sub_generate_cell :: "objective \<Rightarrow> cref \<Rightarrow> nat \<Rightarrow> cref list M" where
  "sub_generate_cell F C_i g =
     bind (gets (\<lambda>s. c_centroid (cx_cells s ! C_i))) (\<lambda>centroid.
     bind (lift (case centroid of None \<Rightarrow> Inl TypeError | Some k \<Rightarrow> Inr k)) (\<lambda>origin_new.
     bind (gets (\<lambda>s. int (length (c_C (cx_cells s ! C_i))) - 1)) (\<lambda>centroid_index.
     bind (gets cx_H) (\<lambda>H.
     bind (if g < length H then lift (Inr ()) else modify (\<lambda>s. s\<lparr>cx_H := cx_H s @ [[]]\<rparr>)) (\<lambda>u.
     bind (gets (\<lambda>s. butlast (c_C (cx_cells s ! C_i)))) (\<lambda>vs.
     bind (for_acc vs (\<lambda>v H_new.
             bind (gets (\<lambda>s. v_x (cx_vertices s ! v))) (\<lambda>suprenum.
             bind (gets (\<lambda>s. c_hg_n (cx_cells s ! C_i))) (\<lambda>hgr.
             bind (gets (\<lambda>s. c_p_hgr_h (cx_cells s ! C_i))) (\<lambda>p_hgr_h.
             bind (construct_hypercube F origin_new suprenum g hgr p_hgr_h) (\<lambda>c.
             lift (Inr (H_new @ [c]))))))) []) (\<lambda>H_new.
     bind (disconnect_template C_i centroid_index) (\<lambda>u.
     lift (Inr H_new)))))))))"

text \<open>
  The body of the \<open>try\<close> statement of \<open>Complex.split_generation\<close> (lines 362-367).
\<close>

definition split_generation_try :: "objective \<Rightarrow> unit M" where
  "split_generation_try F =
     bind (gets (\<lambda>t. py_get (cx_H t) (int (cx_gen t)))) (\<lambda>row.
     bind (lift row) (\<lambda>cells.
     for_each cells (\<lambda>c.
       bind (gets cx_gen) (\<lambda>g.
       bind (sub_generate_cell F c (g + 1)) (\<lambda>H_new. lift (Inr ()))))))"

text \<open>
  \<open>Complex.split_generation\<close> (lines 358-371): \<open>except IndexError: pass\<close> swallows an
  \<open>IndexError\<close> raised anywhere in the \<open>try\<close> body, whoever raised it, and
  \<open>self.gen += 1\<close> follows; an exception of any other class propagates before that line.
\<close>

definition split_generation :: "objective \<Rightarrow> unit M" where
  "split_generation F s =
     (case split_generation_try F s of
        (Inl e, s') \<Rightarrow>
          if e = IndexError then (Inr (), s'\<lparr>cx_gen := cx_gen s' + 1\<rparr>) else (Inl e, s')
      | (Inr u, s') \<Rightarrow> (Inr (), s'\<lparr>cx_gen := cx_gen s' + 1\<rparr>))"

section \<open>Objectives used in the concrete scenarios\<close>

text \<open>
  \<open>test_func\<close> (lines 1091-1093): \<open>numpy.sum(x ** 2) + 2.0 * x[0]\<close>; \<open>x[0]\<close> raises
  \<open>IndexError\<close> on an empty array.
\<close>

definition test_func :: objective where
  "test_func k =
     (case k of [] \<Rightarrow> Inl IndexError
      | x0 # xs \<Rightarrow> Inr (sum_list (map (\<lambda>y. y * y) k) + 2 * x0))"

section \<open>Concrete states and runs used below\<close>

text \<open>
  A run of lookups on one cache: the caller looks the keys up one after the other and
  keeps going when a lookup raises. The result lists what each lookup returned.
\<close>

fun lookups :: "objective \<Rightarrow> key list \<Rightarrow> hc \<Rightarrow> (error + vref) list \<times> hc" where
  "lookups F [] s = ([], s)"
| "lookups F (k # ks) s =
     (case V_getitem F k s of
        (r, s1) \<Rightarrow> (case lookups F ks s1 of (rs, s2) \<Rightarrow> (r # rs, s2)))"

text \<open>
  For a key \<open>x\<close>: the objective has been invoked at \<open>x\<close> once if \<open>x\<close> is in the cache and
  never otherwise.
\<close>

definition cache_inv :: "key \<Rightarrow> hc \<Rightarrow> bool" where
  "cache_inv x s \<longleftrightarrow>
     count_list (cx_calls s) x = (if map_of (cx_cache s) x = None then 0 else 1)"

text \<open>
  For a key \<open>x\<close>: what the cache holds for \<open>x\<close>, if anything, is a vertex of the store
  with coordinate \<open>x\<close> whose value is the value of the objective at \<open>x\<close>.
\<close>

definition entry_inv :: "objective \<Rightarrow> key \<Rightarrow> hc \<Rightarrow> bool" where
  "entry_inv F x s \<longleftrightarrow>
     (case map_of (cx_cache s) x of
        None \<Rightarrow> True
      | Some r \<Rightarrow> r < length (cx_vertices s) \<and> v_x (cx_vertices s ! r) = x \<and>
                  F x = Inr (v_f (cx_vertices s ! r)))"

text \<open>
  Two and three vertices made by a fresh cache with the objective \<open>test_func\<close>:
  in \<open>two_vertices\<close>, vertex 0 has key \<open>(0)\<close> and value 0, vertex 1 has key \<open>(1)\<close> and
  value 3; in \<open>three_vertices\<close>, vertex 0 has key \<open>(1)\<close> and value 3, vertex 1 has key
  \<open>(2)\<close> and value 8, vertex 2 has key \<open>(0)\<close> and value 0.
\<close>

definition two_vertices :: hc where
  "two_vertices = snd (V_getitem test_func [1] (snd (V_getitem test_func [0] init_state)))"

definition three_vertices :: hc where
  "three_vertices =
     snd (V_getitem test_func [0] (snd (V_getitem test_func [2]
       (snd (V_getitem test_func [1] init_state)))))"

text \<open>
  An objective that raises at the key \<open>(1, 1/2)\<close>, the centroid of the second child cell
  of the symmetric initial cell in dimension 2, and is \<open>test_func\<close> elsewhere.
\<close>

definition failing_func :: objective where
  "failing_func k = (if k = [1, 1 / 2] then Inl FuncError else test_func k)"



text \<open>An objective that raises at the corner \<open>(1, 1)\<close> of the unit square.\<close>

definition corner_failing_func :: objective where
  "corner_failing_func k = (if k = [1, 1] then Inl FuncError else test_func k)"

section \<open>Predicates used in the proofs\<close>





text \<open>
  The invariant of the construction of the initial cell: the vertices exist in the order
  of their creation, vertex \<open>i\<close> has index \<open>I = i\<close>, the cache maps each key to its
  vertex, the initial cell lists all vertices in that order, neighbours are vertices of
  the store, and a clean minimiser cache holds a flag.
\<close>

definition cube_inv :: "hc \<Rightarrow> bool" where
  "cube_inv s \<longleftrightarrow>
     cx_C0 s < length (cx_cells s) \<and>
     c_C (cx_cells s ! cx_C0 s) = [0..<length (cx_vertices s)] \<and>
     cx_cache s = zip (map v_x (cx_vertices s)) [0..<length (cx_vertices s)] \<and>
     distinct (map v_x (cx_vertices s)) \<and>
     cx_Index s = int (length (cx_vertices s)) - 1 \<and>
     (\<forall>i<length (cx_vertices s). v_I (cx_vertices s ! i) = int i) \<and>
     (\<forall>i<length (cx_vertices s). \<forall>j\<in>set (v_nn (cx_vertices s ! i)). j < length (cx_vertices s)) \<and>
     (\<forall>i<length (cx_vertices s).
        v_check_min (cx_vertices s ! i) \<or> v_min (cx_vertices s ! i) \<noteq> None)"

text \<open>
  \<open>completed F\<close> is the objective \<open>F\<close> with the value 0 where \<open>F\<close> raises.
  \<open>carries m m'\<close>: every run of the method \<open>m\<close> that returns is a run of \<open>m'\<close>. A
  construction that returns with \<open>F\<close> is carried by the construction with
  \<open>completed F\<close>, which always returns.
\<close>

definition completed :: "objective \<Rightarrow> objective" where
  "completed F k = (case F k of Inl e \<Rightarrow> Inr 0 | Inr y \<Rightarrow> Inr y)"

definition carries :: "'a M \<Rightarrow> 'a M \<Rightarrow> bool" where
  "carries m m' \<longleftrightarrow> (\<forall>s a s'. m s = (Inr a, s') \<longrightarrow> m' s = (Inr a, s'))"

text \<open>The corners of the unit cube of dimension \<open>d\<close>.\<close>

definition corner :: "nat \<Rightarrow> key \<Rightarrow> bool" where
  "corner d k \<longleftrightarrow> length k = d \<and> set k \<subseteq> {0, 1}"

text \<open>The coordinate keys of the vertices created so far.\<close>

definition keys_of :: "hc \<Rightarrow> key set" where
  "keys_of s = set (map v_x (cx_vertices s))"

text \<open>
  \<open>ones T xi\<close> is the key \<open>xi\<close> with the coordinates in \<open>T\<close> set to 1. \<open>above\<close> holds
  the keys that \<open>perm\<close> reaches from \<open>xi\<close> (one for each non-empty set of coordinates not
  yet flipped), \<open>chain\<close> the keys that \<open>perm_symmetry\<close> reaches (one for each further
  prefix of coordinates).
\<close>

definition ones :: "nat set \<Rightarrow> key \<Rightarrow> key" where
  "ones T xi = map (\<lambda>j. if j \<in> T then 1 else xi ! j) [0..<length xi]"

definition above :: "nat \<Rightarrow> nat list \<Rightarrow> key \<Rightarrow> key set" where
  "above d i_parents xi = (\<lambda>T. ones T xi) ` {T. T \<subseteq> {0..<d} - set i_parents \<and> T \<noteq> {}}"

definition chain :: "nat \<Rightarrow> nat \<Rightarrow> key \<Rightarrow> key set" where
  "chain d i_s xi = (\<lambda>j. ones {i_s..<j} xi) ` {j. i_s < j \<and> j \<le> d}"

text \<open>
  The state of \<open>n_cube\<close> for dimension \<open>d\<close> once the initial cell object exists and before
  the first lookup (lines 71-75).
\<close>

definition cube_start :: "nat \<Rightarrow> hc" where
  "cube_start d =
     \<lparr>cx_gen = 0, cx_H = [], cx_C0 = 0, cx_origin = replicate d 0, cx_suprenum = replicate d 1,
      cx_centroid = None, cx_hgr = 0, cx_hgrd = 0, cx_graph = [], cx_cache = [],
      cx_Index = - 1, cx_vertices = [],
      cx_cells = [\<lparr>c_p_gen = 0, c_p_hgr = Some 0, c_p_hgr_h = 0, c_hg_n = None, c_C = [],
                   c_origin = replicate d 0, c_suprenum = replicate d 1, c_centroid = None\<rparr>],
      cx_calls = []\<rparr>"

text \<open>What \<open>graph_map\<close> computes from a state.\<close>

definition template_of :: "hc \<Rightarrow> int list list" where
  "template_of s =
     map (\<lambda>v. map (\<lambda>v2. v_I (cx_vertices s ! v2)) (v_nn (cx_vertices s ! v)))
       (c_C (cx_cells s ! cx_C0 s))"

section \<open>Vertex: edges\<close>

lemma upd_vertex_fields [simp]:
  "length (cx_vertices (upd_vertex r g s)) = length (cx_vertices s)"
  "cx_cells (upd_vertex r g s) = cx_cells s"
  "cx_cache (upd_vertex r g s) = cx_cache s"
  "cx_calls (upd_vertex r g s) = cx_calls s"
  "cx_Index (upd_vertex r g s) = cx_Index s"
  "cx_H (upd_vertex r g s) = cx_H s"
  "cx_gen (upd_vertex r g s) = cx_gen s"
  "cx_C0 (upd_vertex r g s) = cx_C0 s"
  "cx_graph (upd_vertex r g s) = cx_graph s"
  by (simp_all add: upd_vertex_def)

lemma upd_vertex_nth:
  "cx_vertices (upd_vertex r g s) ! i =
     (if i = r \<and> r < length (cx_vertices s) then g (cx_vertices s ! r) else cx_vertices s ! i)"
  by (cases "r < length (cx_vertices s)") (auto simp: upd_vertex_def list_update_beyond)

lemma minimiser_nn [simp]:
  "v_nn (cx_vertices (snd (minimiser a s)) ! r) = v_nn (cx_vertices s ! r)"
  by (auto simp: minimiser_def Let_def upd_vertex_nth split: option.splits)

lemma minimiser_length [simp]:
  "length (cx_vertices (snd (minimiser a s))) = length (cx_vertices s)"
  by (auto simp: minimiser_def Let_def split: option.splits)

lemma minimiser_ok:
  "v_check_min (cx_vertices s ! a) \<or> v_min (cx_vertices s ! a) \<noteq> None \<Longrightarrow>
   \<exists>m. fst (minimiser a s) = Inr m"
  by (auto simp: minimiser_def Let_def split: option.splits)

lemma connect_snd:
  "snd (connect a b s) =
     (if b \<noteq> a \<and> b \<notin> set (v_nn (cx_vertices s ! a)) then
        (let s2 = upd_vertex b (\<lambda>w. w\<lparr>v_nn := set_add a (v_nn w)\<rparr>)
                    (upd_vertex a (\<lambda>w. w\<lparr>v_nn := set_add b (v_nn w)\<rparr>) s);
             s3 = snd (minimiser a s2)
         in if fst (minimiser a s2) = Inr True
            then upd_vertex b (\<lambda>w. w\<lparr>v_min := Some False, v_check_min := False\<rparr>) s3
            else s3)
      else s)"
  by (auto simp: connect_def Let_def split: prod.splits sum.splits)

lemma connect_nn:
  assumes "a < length (cx_vertices s)" "b < length (cx_vertices s)" "a \<noteq> b"
    and "b \<notin> set (v_nn (cx_vertices s ! a))"
  shows "v_nn (cx_vertices (snd (connect a b s)) ! a) = v_nn (cx_vertices s ! a) @ [b]"
    and "v_nn (cx_vertices (snd (connect a b s)) ! b) = set_add a (v_nn (cx_vertices s ! b))"
  using assms
  by (auto simp: connect_snd Let_def upd_vertex_nth set_add_def)


lemma connect_fst:
  "v_check_min (cx_vertices s ! a) \<or> v_min (cx_vertices s ! a) \<noteq> None \<Longrightarrow>
   fst (connect a b s) = Inr ()"
  by (auto simp: connect_def minimiser_def Let_def upd_vertex_nth
      split: prod.splits sum.splits option.splits if_splits)

lemma disconnect_snd:
  "b \<in> set (v_nn (cx_vertices s ! a)) \<Longrightarrow> a \<in> set (v_nn (cx_vertices s ! b)) \<Longrightarrow>
   a \<noteq> b \<Longrightarrow> a < length (cx_vertices s) \<Longrightarrow> b < length (cx_vertices s) \<Longrightarrow>
   disconnect a b s =
     (Inr (), upd_vertex a (\<lambda>w. w\<lparr>v_check_min := True\<rparr>)
        (upd_vertex b (\<lambda>w. w\<lparr>v_nn := removeAll a (v_nn w)\<rparr>)
          (upd_vertex a (\<lambda>w. w\<lparr>v_nn := removeAll b (v_nn w)\<rparr>) s)))"
  by (simp add: disconnect_def Let_def upd_vertex_nth)

text \<open>
  Claim C8. For distinct vertices \<open>a\<close> and \<open>b\<close> whose adjacency is symmetric (an edge is
  in both neighbour sets or in neither): after \<open>connect(a, b)\<close> each is in the other's
  neighbour set; \<open>connect\<close> changes nothing when \<open>b\<close> is \<open>a\<close> or is already adjacent;
  and if the edge was inserted, \<open>disconnect(a, b)\<close> returns normally and leaves both
  neighbour sets as they were before the \<open>connect\<close>.
\<close>

theorem connect_disconnect_neighbours:
  assumes "a < length (cx_vertices s)" and "b < length (cx_vertices s)" and "a \<noteq> b"
    and "b \<in> set (v_nn (cx_vertices s ! a)) \<longleftrightarrow> a \<in> set (v_nn (cx_vertices s ! b))"
  shows "b \<in> set (v_nn (cx_vertices (snd (connect a b s)) ! a)) \<and>
         a \<in> set (v_nn (cx_vertices (snd (connect a b s)) ! b)) \<and>
         connect a a s = (Inr (), s) \<and>
         (b \<in> set (v_nn (cx_vertices s ! a)) \<longrightarrow> connect a b s = (Inr (), s)) \<and>
         (b \<notin> set (v_nn (cx_vertices s ! a)) \<longrightarrow>
            fst (disconnect a b (snd (connect a b s))) = Inr () \<and>
            v_nn (cx_vertices (snd (disconnect a b (snd (connect a b s)))) ! a)
              = v_nn (cx_vertices s ! a) \<and>
            v_nn (cx_vertices (snd (disconnect a b (snd (connect a b s)))) ! b)
              = v_nn (cx_vertices s ! b))"
proof (cases "b \<in> set (v_nn (cx_vertices s ! a))")
  case True
  then have "connect a b s = (Inr (), s)" by (simp add: connect_def)
  with True assms show ?thesis by (simp add: connect_def)
next
  case False
  let ?s1 = "snd (connect a b s)"
  have na: "v_nn (cx_vertices ?s1 ! a) = v_nn (cx_vertices s ! a) @ [b]"
    and nb: "v_nn (cx_vertices ?s1 ! b) = v_nn (cx_vertices s ! b) @ [a]"
    using connect_nn[OF assms(1-3) False] False assms(4) by (simp_all add: set_add_def)
  have len: "length (cx_vertices ?s1) = length (cx_vertices s)"
    by (simp add: connect_snd Let_def)
  have d: "disconnect a b ?s1 =
     (Inr (), upd_vertex a (\<lambda>w. w\<lparr>v_check_min := True\<rparr>)
        (upd_vertex b (\<lambda>w. w\<lparr>v_nn := removeAll a (v_nn w)\<rparr>)
          (upd_vertex a (\<lambda>w. w\<lparr>v_nn := removeAll b (v_nn w)\<rparr>) ?s1)))"
    using assms(1-3) by (intro disconnect_snd) (simp_all add: na nb len)
  have self: "connect a a s = (Inr (), s)" by (simp add: connect_def)
  have "a \<notin> set (v_nn (cx_vertices s ! b))" using False assms(4) by simp
  then show ?thesis
    using False assms(1-3) by (simp add: d upd_vertex_nth na nb len self)
qed


theorem connect_disconnect_neighbours_witness:
  "(0::nat) < length (cx_vertices two_vertices) \<and> (1::nat) < length (cx_vertices two_vertices) \<and>
   1 \<in> set (v_nn (cx_vertices (snd (connect 0 1 two_vertices)) ! 0)) \<and>
   0 \<in> set (v_nn (cx_vertices (snd (connect 0 1 two_vertices)) ! 1)) \<and>
   fst (disconnect 0 1 (snd (connect 0 1 two_vertices))) = Inr () \<and>
   v_nn (cx_vertices (snd (disconnect 0 1 (snd (connect 0 1 two_vertices)))) ! 0)
     = v_nn (cx_vertices two_vertices ! 0) \<and>
   v_nn (cx_vertices (snd (disconnect 0 1 (snd (connect 0 1 two_vertices)))) ! 1)
     = v_nn (cx_vertices two_vertices ! 1)"
proof -
  have h: "(0::nat) < length (cx_vertices two_vertices)"
    "(1::nat) < length (cx_vertices two_vertices)"
    "(0::nat) \<noteq> 1"
    "1 \<in> set (v_nn (cx_vertices two_vertices ! 0)) \<longleftrightarrow> 0 \<in> set (v_nn (cx_vertices two_vertices ! 1))"
    "1 \<notin> set (v_nn (cx_vertices two_vertices ! 0))"
    by code_simp+
  show ?thesis
    using connect_disconnect_neighbours[OF h(1-4)] h(1,2,5) by simp
qed

section \<open>Vertex: the cached minimiser flag\<close>

text \<open>
  Claim C4 does not hold of the code. Two fresh vertices, vertex 0 with value 0 and
  vertex 1 with value 3. \<open>connect(0, 1)\<close> inserts the edge and marks no cache dirty: it
  leaves both caches clean, with the flag \<open>False\<close> stored for vertex 1. The following
  \<open>disconnect(0, 1)\<close> removes the edge and marks only the cache of vertex 0 dirty; the
  cache of vertex 1 stays clean, so \<open>minimiser()\<close> of vertex 1, which has no neighbour
  left, still answers \<open>False\<close>.
\<close>

theorem connect_disconnect_leave_caches_clean:
  "v_check_min (cx_vertices two_vertices ! 0) \<and> v_check_min (cx_vertices two_vertices ! 1) \<and>
   1 \<notin> set (v_nn (cx_vertices two_vertices ! 0)) \<and>
   fst (connect 0 1 two_vertices) = Inr () \<and>
   1 \<in> set (v_nn (cx_vertices (snd (connect 0 1 two_vertices)) ! 0)) \<and>
   \<not> v_check_min (cx_vertices (snd (connect 0 1 two_vertices)) ! 0) \<and>
   \<not> v_check_min (cx_vertices (snd (connect 0 1 two_vertices)) ! 1) \<and>
   v_min (cx_vertices (snd (connect 0 1 two_vertices)) ! 1) = Some False \<and>
   fst (disconnect 0 1 (snd (connect 0 1 two_vertices))) = Inr () \<and>
   v_nn (cx_vertices (snd (disconnect 0 1 (snd (connect 0 1 two_vertices)))) ! 0) = [] \<and>
   v_nn (cx_vertices (snd (disconnect 0 1 (snd (connect 0 1 two_vertices)))) ! 1) = [] \<and>
   v_check_min (cx_vertices (snd (disconnect 0 1 (snd (connect 0 1 two_vertices)))) ! 0) \<and>
   \<not> v_check_min (cx_vertices (snd (disconnect 0 1 (snd (connect 0 1 two_vertices)))) ! 1) \<and>
   fst (minimiser 1 (snd (disconnect 0 1 (snd (connect 0 1 two_vertices))))) = Inr False"
  by code_simp

text \<open>
  Claim C3 does not hold of the code. Three fresh vertices with values 3, 8 and 0;
  after \<open>connect(0, 1)\<close> and \<open>connect(0, 2)\<close>, \<open>minimiser()\<close> of vertex 0 (value 3)
  returns true although its neighbour 2 has the smaller value 0, and \<open>minimiser()\<close> of
  vertex 2 returns false although its only neighbour has the larger value 3: the second
  \<open>connect\<close> trusts the flag that vertex 0 cached before the edge existed.
\<close>

theorem minimiser_stale_after_connect:
  "fst (minimiser 0 (snd (connect 0 2 (snd (connect 0 1 three_vertices))))) = Inr True \<and>
   2 \<in> set (v_nn (cx_vertices (snd (connect 0 2 (snd (connect 0 1 three_vertices)))) ! 0)) \<and>
   v_f (cx_vertices (snd (connect 0 2 (snd (connect 0 1 three_vertices)))) ! 2)
     < v_f (cx_vertices (snd (connect 0 2 (snd (connect 0 1 three_vertices)))) ! 0) \<and>
   fst (minimiser 2 (snd (connect 0 2 (snd (connect 0 1 three_vertices))))) = Inr False \<and>
   v_nn (cx_vertices (snd (connect 0 2 (snd (connect 0 1 three_vertices)))) ! 2) = [0]"
  by code_simp

section \<open>VertexCache: one vertex and one evaluation per key\<close>


lemma V_getitem_keeps_entry:
  "map_of (cx_cache s) x = Some r \<Longrightarrow> map_of (cx_cache (snd (V_getitem F k s))) x = Some r"
  by (auto simp: V_getitem_def Vertex_init_def Let_def map_add_def split: option.splits sum.splits)

lemma V_getitem_returns:
  "F x = Inr y \<Longrightarrow>
   \<exists>r. fst (V_getitem F x s) = Inr r \<and> map_of (cx_cache (snd (V_getitem F x s))) x = Some r"
  by (auto simp: V_getitem_def Vertex_init_def Let_def map_add_def split: option.splits sum.splits)

lemma V_getitem_cache_inv:
  "F x = Inr y \<Longrightarrow> cache_inv x s \<Longrightarrow> cache_inv x (snd (V_getitem F k s))"
  by (auto simp: V_getitem_def Vertex_init_def Let_def cache_inv_def map_add_def
      split: option.splits sum.splits if_splits)

lemma V_getitem_keys:
  "F x = Inr y \<Longrightarrow>
   map_of (cx_cache (snd (V_getitem F k s))) x \<noteq> None
     \<longleftrightarrow> x = k \<or> map_of (cx_cache s) x \<noteq> None"
  by (auto simp: V_getitem_def Vertex_init_def Let_def map_add_def
      split: option.splits sum.splits if_splits)

lemma V_getitem_entry_inv:
  "entry_inv F x s \<Longrightarrow> entry_inv F x (snd (V_getitem F k s))"
  by (auto simp: V_getitem_def Vertex_init_def Let_def entry_inv_def map_add_def nth_append
      split: option.splits sum.splits if_splits)

lemma lookups_entry_inv:
  "entry_inv F x s \<Longrightarrow> entry_inv F x (snd (lookups F ks s))"
proof (induction ks arbitrary: s)
  case Nil
  then show ?case by simp
next
  case (Cons k ks)
  from Cons.IH[OF V_getitem_entry_inv[OF Cons.prems, of k]]
  show ?case by (auto split: prod.splits)
qed

lemma lookups_stable:
  assumes "F x = Inr y" and "cache_inv x s"
  shows "\<exists>r. (\<forall>i<length ks. ks ! i = x \<longrightarrow> fst (lookups F ks s) ! i = Inr r) \<and>
              (\<forall>r0. map_of (cx_cache s) x = Some r0 \<longrightarrow> r = r0) \<and>
              cache_inv x (snd (lookups F ks s)) \<and>
              (map_of (cx_cache (snd (lookups F ks s))) x \<noteq> None
                 \<longleftrightarrow> x \<in> set ks \<or> map_of (cx_cache s) x \<noteq> None) \<and>
              (\<forall>r0. map_of (cx_cache (snd (lookups F ks s))) x = Some r0 \<longrightarrow> r = r0)"
  using assms(2)
proof (induction ks arbitrary: s)
  case Nil
  then show ?case by (cases "map_of (cx_cache s) x") auto
next
  case (Cons k ks)
  let ?s1 = "snd (V_getitem F k s)"
  have inv1: "cache_inv x ?s1" using assms(1) Cons.prems by (rule V_getitem_cache_inv)
  from Cons.IH[OF inv1] obtain r where r:
    "\<forall>i<length ks. ks ! i = x \<longrightarrow> fst (lookups F ks ?s1) ! i = Inr r"
    "\<forall>r0. map_of (cx_cache ?s1) x = Some r0 \<longrightarrow> r = r0"
    "cache_inv x (snd (lookups F ks ?s1))"
    "map_of (cx_cache (snd (lookups F ks ?s1))) x \<noteq> None
       \<longleftrightarrow> x \<in> set ks \<or> map_of (cx_cache ?s1) x \<noteq> None"
    "\<forall>r0. map_of (cx_cache (snd (lookups F ks ?s1))) x = Some r0 \<longrightarrow> r = r0"
    by blast
  have old: "map_of (cx_cache s) x = Some r0 \<Longrightarrow> r = r0" for r0
    using r(2) V_getitem_keeps_entry by blast
  have first: "k = x \<Longrightarrow> fst (V_getitem F k s) = Inr r"
    using V_getitem_returns[of F x y s, OF assms(1)] r(2) by auto
  have "\<forall>i<length (k # ks). (k # ks) ! i = x \<longrightarrow> fst (lookups F (k # ks) s) ! i = Inr r"
  proof (intro allI impI)
    fix i assume "i < length (k # ks)" "(k # ks) ! i = x"
    then show "fst (lookups F (k # ks) s) ! i = Inr r"
      using first r(1) by (cases i) (auto split: prod.splits)
  qed
  moreover have "cache_inv x (snd (lookups F (k # ks) s))"
    using r(3) by (auto split: prod.splits)
  moreover have "map_of (cx_cache (snd (lookups F (k # ks) s))) x \<noteq> None
       \<longleftrightarrow> x \<in> set (k # ks) \<or> map_of (cx_cache s) x \<noteq> None"
    using r(4) V_getitem_keys[of F x y k s, OF assms(1)] by (auto split: prod.splits)
  moreover have "\<forall>r0. map_of (cx_cache (snd (lookups F (k # ks) s))) x = Some r0 \<longrightarrow> r = r0"
    using r(5) by (auto split: prod.splits)
  ultimately show ?case using old by blast
qed

lemma V_getitem_raising:
  assumes "F x = Inl e" and "map_of (cx_cache s) x = None"
  shows "map_of (cx_cache (snd (V_getitem F k s))) x = None"
    and "count_list (cx_calls (snd (V_getitem F k s))) x
           = count_list (cx_calls s) x + (if k = x then 1 else 0)"
    and "k = x \<Longrightarrow> fst (V_getitem F k s) = Inl e"
  using assms
  by (auto simp: V_getitem_def Vertex_init_def Let_def map_add_def
      split: option.splits sum.splits)

lemma lookups_raising:
  assumes "F x = Inl e"
  shows "map_of (cx_cache s) x = None \<Longrightarrow>
         (\<forall>i<length ks. ks ! i = x \<longrightarrow> fst (lookups F ks s) ! i = Inl e) \<and>
         map_of (cx_cache (snd (lookups F ks s))) x = None \<and>
         count_list (cx_calls (snd (lookups F ks s))) x
           = count_list (cx_calls s) x + count_list ks x"
proof (induction ks arbitrary: s)
  case Nil
  then show ?case by simp
next
  case (Cons k ks)
  let ?s1 = "snd (V_getitem F k s)"
  note v = V_getitem_raising[where F = F and x = x and e = e and s = s and k = k,
      OF assms Cons.prems]
  from Cons.IH[OF v(1)] have r:
    "\<forall>i<length ks. ks ! i = x \<longrightarrow> fst (lookups F ks ?s1) ! i = Inl e"
    "map_of (cx_cache (snd (lookups F ks ?s1))) x = None"
    "count_list (cx_calls (snd (lookups F ks ?s1))) x
       = count_list (cx_calls ?s1) x + count_list ks x"
    by blast+
  have "\<forall>i<length (k # ks). (k # ks) ! i = x \<longrightarrow> fst (lookups F (k # ks) s) ! i = Inl e"
  proof (intro allI impI)
    fix i assume "i < length (k # ks)" "(k # ks) ! i = x"
    then show "fst (lookups F (k # ks) s) ! i = Inl e"
      using v(3) r(1) by (cases i) (auto split: prod.splits)
  qed
  moreover have "map_of (cx_cache (snd (lookups F (k # ks) s))) x = None"
    using r(2) by (auto split: prod.splits)
  moreover have "count_list (cx_calls (snd (lookups F (k # ks) s))) x
       = count_list (cx_calls s) x + count_list (k # ks) x"
    using r(3) v(2) by (auto split: prod.splits)
  ultimately show ?case by blast
qed

text \<open>
  Claim C1, as amended. On one cache, starting empty, take any sequence of lookups and
  any key \<open>x\<close>. If the objective returns a value \<open>y\<close> at \<open>x\<close>, every lookup of \<open>x\<close> in the
  sequence returns the same vertex object; once \<open>x\<close> has been looked up, that object is the
  one the cache holds for \<open>x\<close>, it is a vertex of the store with coordinate \<open>x\<close> and value
  \<open>y\<close>, and the objective has been invoked at \<open>x\<close> exactly once, however often \<open>x\<close> is
  looked up (and never if \<open>x\<close> is not looked up). If the objective raises at \<open>x\<close>, every
  lookup of \<open>x\<close> raises the exception of the objective, the cache never holds \<open>x\<close>, and the
  objective is invoked at \<open>x\<close> once for each lookup of \<open>x\<close>.
\<close>

theorem lookup_referentially_stable:
  "(F x = Inr y \<longrightarrow>
      (\<exists>r. (\<forall>i<length ks. ks ! i = x \<longrightarrow> fst (lookups F ks init_state) ! i = Inr r) \<and>
           (x \<in> set ks \<longrightarrow>
              map_of (cx_cache (snd (lookups F ks init_state))) x = Some r \<and>
              r < length (cx_vertices (snd (lookups F ks init_state))) \<and>
              v_x (cx_vertices (snd (lookups F ks init_state)) ! r) = x \<and>
              v_f (cx_vertices (snd (lookups F ks init_state)) ! r) = y)) \<and>
      count_list (cx_calls (snd (lookups F ks init_state))) x
        = (if x \<in> set ks then 1 else 0)) \<and>
   (F x = Inl e \<longrightarrow>
      (\<forall>i<length ks. ks ! i = x \<longrightarrow> fst (lookups F ks init_state) ! i = Inl e) \<and>
      map_of (cx_cache (snd (lookups F ks init_state))) x = None \<and>
      count_list (cx_calls (snd (lookups F ks init_state))) x = count_list ks x)"
proof (intro conjI impI)
  let ?S = "snd (lookups F ks init_state)"
  assume y: "F x = Inr y"
  have inv0: "cache_inv x init_state" by (simp add: cache_inv_def init_state_def)
  from lookups_stable[of F x y init_state ks, OF y inv0] obtain r where r:
    "\<forall>i<length ks. ks ! i = x \<longrightarrow> fst (lookups F ks init_state) ! i = Inr r"
    "cache_inv x ?S"
    "map_of (cx_cache ?S) x \<noteq> None \<longleftrightarrow> x \<in> set ks \<or> map_of (cx_cache init_state) x \<noteq> None"
    "\<forall>r0. map_of (cx_cache ?S) x = Some r0 \<longrightarrow> r = r0"
    by blast
  have c: "map_of (cx_cache ?S) x \<noteq> None \<longleftrightarrow> x \<in> set ks"
    using r(3) by (simp add: init_state_def)
  have "entry_inv F x init_state" by (simp add: entry_inv_def init_state_def)
  then have e: "entry_inv F x ?S" by (rule lookups_entry_inv)
  have "map_of (cx_cache ?S) x = Some r \<and> r < length (cx_vertices ?S) \<and>
        v_x (cx_vertices ?S ! r) = x \<and> v_f (cx_vertices ?S ! r) = y" if "x \<in> set ks"
  proof -
    from that c obtain r0 where r0: "map_of (cx_cache ?S) x = Some r0" by auto
    with r(4) have "r0 = r" by simp
    with r0 e y show ?thesis by (simp add: entry_inv_def)
  qed
  with r(1) show "\<exists>r. (\<forall>i<length ks. ks ! i = x \<longrightarrow> fst (lookups F ks init_state) ! i = Inr r) \<and>
           (x \<in> set ks \<longrightarrow>
              map_of (cx_cache ?S) x = Some r \<and> r < length (cx_vertices ?S) \<and>
              v_x (cx_vertices ?S ! r) = x \<and> v_f (cx_vertices ?S ! r) = y)"
    by blast
  show "count_list (cx_calls ?S) x = (if x \<in> set ks then 1 else 0)"
    using r(2) c by (auto simp: cache_inv_def)
next
  let ?S = "snd (lookups F ks init_state)"
  assume e: "F x = Inl e"
  have n: "map_of (cx_cache init_state) x = None" by (simp add: init_state_def)
  from lookups_raising[where F = F and x = x and e = e and s = init_state and ks = ks, OF e n]
  show "\<forall>i<length ks. ks ! i = x \<longrightarrow> fst (lookups F ks init_state) ! i = Inl e"
    and "map_of (cx_cache ?S) x = None"
    and "count_list (cx_calls ?S) x = count_list ks x"
    by (simp_all add: init_state_def)
qed

theorem lookup_referentially_stable_witness:
  "failing_func [0, 1] = Inr 1 \<and> failing_func [1, 1 / 2] = Inl FuncError \<and>
   fst (lookups failing_func [[0, 1], [1, 1 / 2], [0, 1], [0, 0], [1, 1 / 2], [0, 1]] init_state)
     = [Inr 0, Inl FuncError, Inr 0, Inr 1, Inl FuncError, Inr 0] \<and>
   count_list (cx_calls (snd (lookups failing_func
       [[0, 1], [1, 1 / 2], [0, 1], [0, 0], [1, 1 / 2], [0, 1]] init_state))) [0, 1] = 1 \<and>
   count_list (cx_calls (snd (lookups failing_func
       [[0, 1], [1, 1 / 2], [0, 1], [0, 0], [1, 1 / 2], [0, 1]] init_state))) [1, 1 / 2] = 2"
proof -
  let ?ks = "[[0, 1], [1, 1 / 2], [0, 1], [0, 0], [1, 1 / 2], [0, 1 :: rat]]"
  have h: "failing_func [0, 1] = Inr 1" "failing_func [1, 1 / 2] = Inl FuncError"
    by code_simp+
  have m: "[0, 1 :: rat] \<in> set ?ks" "count_list ?ks [1, 1 / 2 :: rat] = 2" by simp_all
  have c: "count_list (cx_calls (snd (lookups failing_func ?ks init_state))) [0, 1] = 1"
    using lookup_referentially_stable[where F = failing_func and x = "[0, 1]" and y = 1
        and ks = ?ks] h(1) m(1)
    by simp
  have d: "count_list (cx_calls (snd (lookups failing_func ?ks init_state))) [1, 1 / 2] = 2"
    using lookup_referentially_stable[where F = failing_func and x = "[1, 1 / 2]"
        and e = FuncError and ks = ?ks] h(2) m(2)
    by simp
  have e: "fst (lookups failing_func ?ks init_state)
             = [Inr 0, Inl FuncError, Inr 0, Inr 1, Inl FuncError, Inr 0]"
    by code_simp
  show ?thesis using h c d e by simp
qed

text \<open>
  The claim as stated fails at a key where the objective raises: two lookups of
  \<open>(1, 1/2)\<close> invoke the objective twice, return no vertex, and leave the cache empty.
\<close>

theorem lookup_raising_key_counterexample:
  "failing_func [1, 1 / 2] = Inl FuncError \<and>
   fst (lookups failing_func [[1, 1 / 2], [1, 1 / 2]] init_state)
     = [Inl FuncError, Inl FuncError] \<and>
   cx_calls (snd (lookups failing_func [[1, 1 / 2], [1, 1 / 2]] init_state))
     = [[1, 1 / 2], [1, 1 / 2]] \<and>
   cx_cache (snd (lookups failing_func [[1, 1 / 2], [1, 1 / 2]] init_state)) = [] \<and>
   cx_vertices (snd (lookups failing_func [[1, 1 / 2], [1, 1 / 2]] init_state)) = []"
  by code_simp

section \<open>Complex: concrete scenarios\<close>

text \<open>
  Claim C9. Dimension 2, objective \<open>x0^2 + x1^2 + 2 x0\<close>, no bounds, no symmetry:
  construction returns; the initial cell holds the vertices 0, 1, 2, 3 with the keys
  \<open>(0,0)\<close>, \<open>(1,1)\<close>, \<open>(1,0)\<close>, \<open>(0,1)\<close> and the values 0, 4, 3, 1; the neighbours of
  \<open>(0,0)\<close> are the three other corners; \<open>minimiser()\<close> is true for \<open>(0,0)\<close> and false for
  the three others; \<open>homology_group_rank()\<close> of the initial cell returns 1, which is also
  the value \<open>__init__\<close> stored in \<open>hgr\<close>.
\<close>

theorem initial_square_minimiser:
  "fst (Complex_init test_func 2 False) = Inr () \<and>
   map (\<lambda>r. v_x (cx_vertices (snd (Complex_init test_func 2 False)) ! r))
     (c_C (cx_cells (snd (Complex_init test_func 2 False)) ! cx_C0 (snd (Complex_init test_func 2 False))))
     = [[0, 0], [1, 1], [1, 0], [0, 1]] \<and>
   map (\<lambda>r. v_f (cx_vertices (snd (Complex_init test_func 2 False)) ! r))
     (c_C (cx_cells (snd (Complex_init test_func 2 False)) ! cx_C0 (snd (Complex_init test_func 2 False))))
     = [0, 4, 3, 1] \<and>
   c_C (cx_cells (snd (Complex_init test_func 2 False)) ! cx_C0 (snd (Complex_init test_func 2 False)))
     = [0, 1, 2, 3] \<and>
   set (v_nn (cx_vertices (snd (Complex_init test_func 2 False)) ! 0)) = {1, 2, 3} \<and>
   map (\<lambda>r. fst (minimiser r (snd (Complex_init test_func 2 False))))
     (c_C (cx_cells (snd (Complex_init test_func 2 False)) ! cx_C0 (snd (Complex_init test_func 2 False))))
     = [Inr True, Inr False, Inr False, Inr False] \<and>
   fst (homology_group_rank (cx_C0 (snd (Complex_init test_func 2 False)))
          (snd (Complex_init test_func 2 False))) = Inr 1 \<and>
   cx_hgr (snd (Complex_init test_func 2 False)) = 1"
  by code_simp

text \<open>
  Claim C7, as amended. For every negative dimension the constructor raises (the
  \<open>ValueError\<close> of \<open>numpy.zeros\<close>) before anything is created; for dimension 0 with
  symmetry it raises as well (\<open>IndexError\<close> in \<open>perm_symmetry\<close>, or the error of the
  objective at the empty key). In both cases no complex is produced.
\<close>

theorem Complex_init_nonpositive_dimension:
  "(dm < 0 \<longrightarrow> Complex_init F dm symmetry = (Inl ValueError, init_state)) \<and>
   fst (Complex_init F 0 True) = (case F [] of Inl e \<Rightarrow> Inl e | Inr y \<Rightarrow> Inl IndexError)"
proof -
  have neg: "dm < 0 \<Longrightarrow> Complex_init F dm symmetry = (Inl ValueError, init_state)"
    by (simp add: Complex_init_def n_cube_def bind_def lift_def)
  have zero: "fst (Complex_init F 0 True) = (case F [] of Inl e \<Rightarrow> Inl e | Inr y \<Rightarrow> Inl IndexError)"
    by (cases "F []")
       (simp_all add: Complex_init_def n_cube_def bind_def Cell_init_def V_getitem_def
          Vertex_init_def init_state_def C0_add_vertex_def add_vertex_def upd_cell_def Let_def
          lift_def gets_def modify_def perm_symmetry.simps)
  show ?thesis using neg zero by blast
qed

theorem Complex_init_nonpositive_dimension_witness:
  "(- 1 :: int) < 0 \<and> Complex_init test_func (- 1) False = (Inl ValueError, init_state)"
  using Complex_init_nonpositive_dimension[of "- 1" test_func False] by simp

text \<open>
  The claim as stated fails at dimension 0 without symmetry: no check rejects it, and with
  an objective that accepts the empty coordinate the constructor returns a complex of one
  vertex.
\<close>

theorem Complex_init_dimension_zero_counterexample:
  "fst (Complex_init (\<lambda>k. Inr 0) 0 False) = Inr () \<and>
   length (cx_vertices (snd (Complex_init (\<lambda>k. Inr 0) 0 False))) = 1"
  by code_simp

text \<open>
  Claim C5 does not hold of the code. In the initial complex without symmetry the centroid
  of the initial cell is never set (\<open>add_centroid\<close> is switched off in \<open>__init__\<close>), so
  \<open>split_generation\<close> raises \<open>TypeError\<close> at \<open>tuple(C_i.centroid)\<close> and leaves the
  complex as it was: no child cell is constructed and nothing is stored in the next
  generation.
\<close>

theorem split_generation_initial_TypeError:
  "fst (Complex_init test_func 2 False) = Inr () \<and>
   split_generation test_func (snd (Complex_init test_func 2 False))
     = (Inl TypeError, snd (Complex_init test_func 2 False))"
  by code_simp

section \<open>Complex: a generation step that raises\<close>

lemma upd_cell_fields [simp]:
  "length (cx_cells (upd_cell c g s)) = length (cx_cells s)"
  "cx_vertices (upd_cell c g s) = cx_vertices s"
  "cx_cache (upd_cell c g s) = cx_cache s"
  "cx_calls (upd_cell c g s) = cx_calls s"
  "cx_Index (upd_cell c g s) = cx_Index s"
  "cx_H (upd_cell c g s) = cx_H s"
  "cx_gen (upd_cell c g s) = cx_gen s"
  "cx_C0 (upd_cell c g s) = cx_C0 s"
  "cx_graph (upd_cell c g s) = cx_graph s"
  by (simp_all add: upd_cell_def)

lemma upd_cell_nth:
  "cx_cells (upd_cell c g s) ! i =
     (if i = c \<and> c < length (cx_cells s) then g (cx_cells s ! c) else cx_cells s ! i)"
  by (cases "c < length (cx_cells s)") (auto simp: upd_cell_def list_update_beyond)












































lemma minimiser_calls [simp]: "cx_calls (snd (minimiser a s)) = cx_calls s"
  by (auto simp: minimiser_def Let_def split: option.splits)
















section \<open>Complex: the construction of the initial cell\<close>

lemma cache_lookup_None:
  "cube_inv s \<Longrightarrow> map_of (cx_cache s) k = None \<longleftrightarrow> k \<notin> keys_of s"
  by (simp add: cube_inv_def keys_of_def map_of_zip_is_None)

lemma cache_lookup_Some:
  assumes "cube_inv s" and "k \<in> keys_of s"
  shows "\<exists>r. map_of (cx_cache s) k = Some r \<and> r < length (cx_vertices s) \<and>
             v_x (cx_vertices s ! r) = k"
proof -
  from assms(2) obtain r where r: "r < length (cx_vertices s)" "v_x (cx_vertices s ! r) = k"
    by (auto simp: keys_of_def in_set_conv_nth)
  have "map_of (zip (map v_x (cx_vertices s)) [0..<length (cx_vertices s)])
          (map v_x (cx_vertices s) ! r) = Some ([0..<length (cx_vertices s)] ! r)"
    using assms(1) r(1) by (intro map_of_zip_nth) (simp_all add: cube_inv_def)
  then have "map_of (cx_cache s) k = Some r"
    using assms(1) r by (simp add: cube_inv_def)
  with r show ?thesis by blast
qed

lemma lookup_known:
  assumes "cube_inv s" and "k \<in> keys_of s"
  shows "\<exists>r. V_getitem F k s = (Inr r, s) \<and> r < length (cx_vertices s) \<and>
             v_x (cx_vertices s ! r) = k"
  using cache_lookup_Some[OF assms] by (auto simp: V_getitem_def)

lemma add_key:
  assumes "cube_inv s" and "\<not> isl (F k)"
  shows "\<exists>r t s'. V_getitem F k s = (Inr r, t) \<and> C0_add_vertex r t = (Inr (), s') \<and>
           cube_inv s' \<and> keys_of s' = insert k (keys_of s)"
proof (cases "k \<in> keys_of s")
  case True
  from lookup_known[OF assms(1) True, of F] obtain r where
    r: "V_getitem F k s = (Inr r, s)" "r < length (cx_vertices s)" by blast
  have "C0_add_vertex r s = (Inr (), s)"
    using assms(1) r(2) by (simp add: C0_add_vertex_def bind_def gets_def add_vertex_def cube_inv_def)
  with r(1) assms(1) True show ?thesis by (auto simp: insert_absorb)
next
  case False
  then have none: "map_of (cx_cache s) k = None" using assms(1) by (simp add: cache_lookup_None)
  from assms(2) obtain y where y: "F k = Inr y" by (cases "F k") auto
  let ?n = "length (cx_vertices s)"
  let ?v = "\<lparr>v_x = k, v_order = sum_list k, v_f = y, v_nn = [],
             v_check_min = True, v_min = None, v_I = cx_Index s + 1\<rparr>"
  let ?t = "s\<lparr>cx_Index := cx_Index s + 1, cx_calls := cx_calls s @ [k],
              cx_vertices := cx_vertices s @ [?v], cx_cache := cx_cache s @ [(k, ?n)]\<rparr>"
  have g: "V_getitem F k s = (Inr ?n, ?t)"
    using none y by (simp add: V_getitem_def Vertex_init_def Let_def)
  let ?s' = "upd_cell (cx_C0 s) (\<lambda>w. w\<lparr>c_C := c_C w @ [?n]\<rparr>) ?t"
  have a: "C0_add_vertex ?n ?t = (Inr (), ?s')"
    using assms(1) by (simp add: C0_add_vertex_def bind_def gets_def add_vertex_def cube_inv_def)
  have k: "keys_of ?s' = insert k (keys_of s)"
    by (simp add: keys_of_def upd_cell_def)
  have "cube_inv ?s'"
    using assms(1) False
    by (auto simp: cube_inv_def upd_cell_def keys_of_def nth_append less_Suc_eq)
  with g a k show ?thesis by blast
qed


lemma cube_invI:
  assumes "cx_C0 s < length (cx_cells s)"
    and "c_C (cx_cells s ! cx_C0 s) = [0..<length (cx_vertices s)]"
    and "cx_cache s = zip (map v_x (cx_vertices s)) [0..<length (cx_vertices s)]"
    and "distinct (map v_x (cx_vertices s))"
    and "cx_Index s = int (length (cx_vertices s)) - 1"
    and "\<And>i. i < length (cx_vertices s) \<Longrightarrow> v_I (cx_vertices s ! i) = int i"
    and "\<And>i j. i < length (cx_vertices s) \<Longrightarrow> j \<in> set (v_nn (cx_vertices s ! i))
           \<Longrightarrow> j < length (cx_vertices s)"
    and "\<And>i. i < length (cx_vertices s) \<Longrightarrow>
           v_check_min (cx_vertices s ! i) \<or> v_min (cx_vertices s ! i) \<noteq> None"
  shows "cube_inv s"
  using assms unfolding cube_inv_def by blast

lemma connect_keeps_fields:
  "v_x (cx_vertices (snd (connect a b s)) ! i) = v_x (cx_vertices s ! i)"
  "v_I (cx_vertices (snd (connect a b s)) ! i) = v_I (cx_vertices s ! i)"
  "length (cx_vertices (snd (connect a b s))) = length (cx_vertices s)"
  "cx_cells (snd (connect a b s)) = cx_cells s"
  "cx_cache (snd (connect a b s)) = cx_cache s"
  "cx_C0 (snd (connect a b s)) = cx_C0 s"
  "cx_Index (snd (connect a b s)) = cx_Index s"
  by (simp_all add: connect_snd Let_def minimiser_def upd_vertex_nth split: option.splits)

lemma minimiser_flags:
  "v_check_min (cx_vertices s ! i) \<or> v_min (cx_vertices s ! i) \<noteq> None \<Longrightarrow>
   v_check_min (cx_vertices (snd (minimiser a s)) ! i) \<or>
   v_min (cx_vertices (snd (minimiser a s)) ! i) \<noteq> None"
  by (auto simp: minimiser_def Let_def upd_vertex_nth split: option.splits)

lemma connect_flags:
  assumes "v_check_min (cx_vertices s ! i) \<or> v_min (cx_vertices s ! i) \<noteq> None"
  shows "v_check_min (cx_vertices (snd (connect a b s)) ! i) \<or>
         v_min (cx_vertices (snd (connect a b s)) ! i) \<noteq> None"
proof -
  let ?s2 = "upd_vertex b (\<lambda>w. w\<lparr>v_nn := set_add a (v_nn w)\<rparr>)
               (upd_vertex a (\<lambda>w. w\<lparr>v_nn := set_add b (v_nn w)\<rparr>) s)"
  have "v_check_min (cx_vertices ?s2 ! i) \<or> v_min (cx_vertices ?s2 ! i) \<noteq> None"
    using assms by (auto simp: upd_vertex_nth)
  then have "v_check_min (cx_vertices (snd (minimiser a ?s2)) ! i) \<or>
             v_min (cx_vertices (snd (minimiser a ?s2)) ! i) \<noteq> None"
    by (rule minimiser_flags)
  then show ?thesis using assms by (auto simp: connect_snd Let_def upd_vertex_nth)
qed

lemma connect_nn_subset:
  "set (v_nn (cx_vertices (snd (connect a b s)) ! i))
     \<subseteq> insert a (insert b (set (v_nn (cx_vertices s ! i))))"
  by (simp add: connect_snd Let_def upd_vertex_nth set_add_def subset_insertI2)

lemma connect_inv:
  assumes "cube_inv s" and "a < length (cx_vertices s)" and "b < length (cx_vertices s)"
  shows "\<exists>s'. connect a b s = (Inr (), s') \<and> cube_inv s' \<and> keys_of s' = keys_of s"
proof -
  have ok: "fst (connect a b s) = Inr ()"
    using assms(1,2) by (intro connect_fst) (simp add: cube_inv_def)
  let ?s' = "snd (connect a b s)"
  have xs: "map v_x (cx_vertices ?s') = map v_x (cx_vertices s)"
    by (rule nth_equalityI) (simp_all add: connect_keeps_fields)
  have nn: "j < length (cx_vertices s)"
    if "i < length (cx_vertices s)" "j \<in> set (v_nn (cx_vertices ?s' ! i))" for i j
  proof -
    from that(2) connect_nn_subset[of a b s i]
    have "j = a \<or> j = b \<or> j \<in> set (v_nn (cx_vertices s ! i))" by blast
    then show ?thesis using assms that(1) by (auto simp: cube_inv_def)
  qed
  have mn: "v_check_min (cx_vertices ?s' ! i) \<or> v_min (cx_vertices ?s' ! i) \<noteq> None"
    if "i < length (cx_vertices s)" for i
    using assms(1) that by (intro connect_flags) (simp add: cube_inv_def)
  have "cube_inv ?s'"
  proof (rule cube_invI)
    show "cx_C0 ?s' < length (cx_cells ?s')"
      using assms(1) by (simp add: connect_keeps_fields cube_inv_def)
    show "c_C (cx_cells ?s' ! cx_C0 ?s') = [0..<length (cx_vertices ?s')]"
      using assms(1) by (simp add: connect_keeps_fields cube_inv_def)
    show "cx_cache ?s' = zip (map v_x (cx_vertices ?s')) [0..<length (cx_vertices ?s')]"
      using assms(1) by (simp add: connect_keeps_fields xs cube_inv_def)
    show "distinct (map v_x (cx_vertices ?s'))"
      using assms(1) by (simp add: xs cube_inv_def)
    show "cx_Index ?s' = int (length (cx_vertices ?s')) - 1"
      using assms(1) by (simp add: connect_keeps_fields cube_inv_def)
    show "v_I (cx_vertices ?s' ! i) = int i" if "i < length (cx_vertices ?s')" for i
      using assms(1) that by (simp add: connect_keeps_fields cube_inv_def)
    show "j < length (cx_vertices ?s')"
      if "i < length (cx_vertices ?s')" "j \<in> set (v_nn (cx_vertices ?s' ! i))" for i j
      using nn[of i j] that by (simp add: connect_keeps_fields)
    show "v_check_min (cx_vertices ?s' ! i) \<or> v_min (cx_vertices ?s' ! i) \<noteq> None"
      if "i < length (cx_vertices ?s')" for i
      using mn[of i] that by (simp add: connect_keeps_fields)
  qed
  moreover have "keys_of ?s' = keys_of s" by (simp add: keys_of_def xs)
  moreover have "connect a b s = (Inr (), ?s')" using ok by (simp add: prod_eq_iff)
  ultimately show ?thesis by blast
qed


lemma connect_known:
  assumes "cube_inv s" and "k1 \<in> keys_of s" and "k2 \<in> keys_of s"
  shows "\<exists>a b s'. V_getitem F k1 s = (Inr a, s) \<and> V_getitem F k2 s = (Inr b, s) \<and>
            connect a b s = (Inr (), s') \<and> cube_inv s' \<and> keys_of s' = keys_of s"
proof -
  from lookup_known[OF assms(1,2), of F] obtain a where
    a: "V_getitem F k1 s = (Inr a, s)" "a < length (cx_vertices s)" by blast
  from lookup_known[OF assms(1,3), of F] obtain b where
    b: "V_getitem F k2 s = (Inr b, s)" "b < length (cx_vertices s)" by blast
  from connect_inv[OF assms(1) a(2) b(2)] show ?thesis
    using a(1) b(1) by blast
qed

lemma for_each_invariant:
  assumes "\<And>a t. a \<in> set xs \<Longrightarrow> P t \<Longrightarrow> \<exists>t'. body a t = (Inr (), t') \<and> P t'"
    and "P s"
  shows "\<exists>s'. for_each xs body s = (Inr (), s') \<and> P s'"
  using assms
proof (induction xs arbitrary: s)
  case Nil
  then show ?case by simp
next
  case (Cons x xs)
  from Cons.prems(1)[of x s] Cons.prems(2) obtain t where
    t: "body x s = (Inr (), t)" "P t" by auto
  from Cons.IH[of t] Cons.prems(1) t(2) obtain s' where
    "for_each xs body t = (Inr (), s')" "P s'" by auto
  with t(1) show ?case by simp
qed

lemma for_each_accum:
  fixes K :: "hc \<Rightarrow> 'k set"
  assumes "\<And>a t. a \<in> set xs \<Longrightarrow> P t \<Longrightarrow>
             \<exists>t'. body a t = (Inr (), t') \<and> P t' \<and> K t' = K t \<union> G a"
    and "P s"
  shows "\<exists>s'. for_each xs body s = (Inr (), s') \<and> P s' \<and> K s' = K s \<union> (\<Union>a\<in>set xs. G a)"
  using assms
proof (induction xs arbitrary: s)
  case Nil
  then show ?case by simp
next
  case (Cons x xs)
  from Cons.prems(1)[of x s] Cons.prems(2) obtain t where
    t: "body x s = (Inr (), t)" "P t" "K t = K s \<union> G x" by auto
  from Cons.IH[of t] Cons.prems(1) t(2) obtain s' where
    "for_each xs body t = (Inr (), s')" "P s'" "K s' = K t \<union> (\<Union>a\<in>set xs. G a)" by auto
  with t(1,3) show ?case by auto
qed

lemma perm_step_ok:
  assumes "cube_inv s" and "\<not> isl (F xi2)" and "xi \<in> keys_of s" and "set x_parents \<subseteq> keys_of s"
  shows "\<exists>s'. perm_step F x_parents xi xi2 s = (Inr (), s') \<and> cube_inv s' \<and>
              keys_of s' = insert xi2 (keys_of s)"
proof -
  from add_key[of s F xi2, OF assms(1,2)] obtain r t s1 where
    1: "V_getitem F xi2 s = (Inr r, t)" "C0_add_vertex r t = (Inr (), s1)"
       "cube_inv s1" "keys_of s1 = insert xi2 (keys_of s)" by blast
  have in1: "xi2 \<in> keys_of s1" "xi \<in> keys_of s1" using 1(4) assms(3) by auto
  from connect_known[OF 1(3) in1, of F] obtain r2 p s2 where
    2: "V_getitem F xi2 s1 = (Inr r2, s1)" "V_getitem F xi s1 = (Inr p, s1)"
       "connect r2 p s1 = (Inr (), s2)" "cube_inv s2" "keys_of s2 = keys_of s1" by blast
  let ?P = "\<lambda>t. cube_inv t \<and> keys_of t = keys_of s1"
  let ?body = "\<lambda>x_ip. bind (V_getitem F xi2) (\<lambda>r3. bind (V_getitem F x_ip) (\<lambda>q. connect r3 q))"
  have "\<exists>s'. for_each x_parents ?body s2 = (Inr (), s') \<and> ?P s'"
  proof (rule for_each_invariant)
    show "?P s2" using 2 by simp
  next
    fix a t assume a: "a \<in> set x_parents" and t: "?P t"
    then have k: "xi2 \<in> keys_of t" "a \<in> keys_of t" using in1 assms(4) 1(4) by auto
    from t have "cube_inv t" by simp
    from connect_known[OF this k, of F] obtain r3 q t' where
      "V_getitem F xi2 t = (Inr r3, t)" "V_getitem F a t = (Inr q, t)"
      "connect r3 q t = (Inr (), t')" "cube_inv t'" "keys_of t' = keys_of t" by blast
    then show "\<exists>t'. ?body a t = (Inr (), t') \<and> ?P t'"
      using t by (simp add: bind_def)
  qed
  then obtain s3 where
    3: "for_each x_parents ?body s2 = (Inr (), s3)" "cube_inv s3" "keys_of s3 = keys_of s1"
    by blast
  have "perm_step F x_parents xi xi2 s = (Inr (), s3)"
    unfolding perm_step_def by (simp add: bind_def 1(1,2) 2(1,2,3) 3(1))
  with 3 1(4) show ?thesis by simp
qed

lemma length_ones [simp]: "length (ones T xi) = length xi"
  by (simp add: ones_def)

lemma ones_nth: "j < length xi \<Longrightarrow> ones T xi ! j = (if j \<in> T then 1 else xi ! j)"
  by (simp add: ones_def)

lemma ones_empty [simp]: "ones {} xi = xi"
  by (rule nth_equalityI) (simp_all add: ones_nth)

lemma ones_single: "xi[i := 1] = ones {i} xi"
  by (rule nth_equalityI) (auto simp: ones_nth nth_list_update)

lemma ones_ones: "ones T (ones U xi) = ones (T \<union> U) xi"
  by (rule nth_equalityI) (auto simp: ones_nth)

lemma above_step:
  "(\<Union>i\<in>{0..<d} - set i_parents. insert (xi[i := 1]) (above d (i_parents @ [i]) (xi[i := 1])))
     = above d i_parents xi"
proof (intro equalityI subsetI)
  fix y
  assume "y \<in> (\<Union>i\<in>{0..<d} - set i_parents.
                 insert (xi[i := 1]) (above d (i_parents @ [i]) (xi[i := 1])))"
  then obtain i where i: "i \<in> {0..<d} - set i_parents"
    and y: "y = xi[i := 1] \<or> y \<in> above d (i_parents @ [i]) (xi[i := 1])" by blast
  from y show "y \<in> above d i_parents xi"
  proof
    assume "y = xi[i := 1]"
    then have "y = ones {i} xi" by (simp add: ones_single)
    moreover have "{i} \<subseteq> {0..<d} - set i_parents \<and> {i} \<noteq> {}" using i by simp
    ultimately show ?thesis unfolding above_def by blast
  next
    assume "y \<in> above d (i_parents @ [i]) (xi[i := 1])"
    then obtain T where T: "T \<subseteq> {0..<d} - set (i_parents @ [i])" "T \<noteq> {}"
      and "y = ones T (xi[i := 1])" unfolding above_def by blast
    then have "y = ones (T \<union> {i}) xi" by (simp add: ones_single ones_ones)
    moreover have "T \<union> {i} \<subseteq> {0..<d} - set i_parents \<and> T \<union> {i} \<noteq> {}"
      using T i by auto
    ultimately show ?thesis unfolding above_def by blast
  qed
next
  fix y
  assume "y \<in> above d i_parents xi"
  then obtain T where T: "T \<subseteq> {0..<d} - set i_parents" "T \<noteq> {}" and y: "y = ones T xi"
    unfolding above_def by blast
  from T(2) obtain i where i: "i \<in> T" by blast
  then have i': "i \<in> {0..<d} - set i_parents" using T(1) by blast
  have "y = xi[i := 1] \<or> y \<in> above d (i_parents @ [i]) (xi[i := 1])"
  proof (cases "T = {i}")
    case True
    then show ?thesis using y by (simp add: ones_single)
  next
    case False
    let ?U = "T - {i}"
    have U: "?U \<subseteq> {0..<d} - set (i_parents @ [i])" "?U \<noteq> {}"
      using T(1) False i by auto
    have "?U \<union> {i} = T" using i by blast
    then have "y = ones ?U (xi[i := 1])" using y by (simp add: ones_single ones_ones)
    then show ?thesis using U unfolding above_def by blast
  qed
  then show "y \<in> (\<Union>i\<in>{0..<d} - set i_parents.
                 insert (xi[i := 1]) (above d (i_parents @ [i]) (xi[i := 1])))"
    using i' by blast
qed

lemma corner_update: "corner d xi \<Longrightarrow> corner d (xi[i := 1])"
  using set_update_subset_insert[of xi i 1] by (auto simp: corner_def)

lemma corner_replicate: "corner d (replicate d 0)" "corner d (replicate d 1)"
  by (auto simp: corner_def)

lemma perm_ok:
  "(\<And>k. corner d k \<Longrightarrow> \<not> isl (F k)) \<Longrightarrow> cube_inv s \<Longrightarrow> corner d xi \<Longrightarrow>
   xi \<in> keys_of s \<Longrightarrow> set x_parents \<subseteq> keys_of s \<Longrightarrow>
   \<exists>s'. perm F d i_parents x_parents xi s = (Inr (), s') \<and> cube_inv s' \<and>
        keys_of s' = keys_of s \<union> above d i_parents xi"
proof (induction F d i_parents x_parents xi s rule: perm.induct)
  case (1 F d i_parents x_parents xi s)
  note F = "1.prems"(1)
  let ?xs = "filter (\<lambda>x. x \<notin> set i_parents) [0..<d]"
  let ?body = "\<lambda>i s1. if i < length xi
        then bind (perm_step F x_parents xi (xi[i := 1]))
               (\<lambda>u s2. perm F d (i_parents @ [i]) (x_parents @ [xi]) (xi[i := 1]) s2) s1
        else (Inl IndexError, s1)"
  let ?P = "\<lambda>t. cube_inv t \<and> xi \<in> keys_of t \<and> set x_parents \<subseteq> keys_of t"
  let ?G = "\<lambda>i. insert (xi[i := 1]) (above d (i_parents @ [i]) (xi[i := 1]))"
  have "\<exists>s'. for_each ?xs ?body s = (Inr (), s') \<and> ?P s' \<and>
              keys_of s' = keys_of s \<union> (\<Union>a\<in>set ?xs. ?G a)"
  proof (rule for_each_accum[where P = ?P and G = ?G and K = keys_of])
    show "?P s" using "1.prems" by simp
  next
    fix a t
    assume a: "a \<in> set ?xs" and t: "?P t"
    have al: "a < length xi" using a "1.prems"(3) by (simp add: corner_def)
    have len2: "corner d (xi[a := 1])" using "1.prems"(3) by (rule corner_update)
    from perm_step_ok[of t F "xi[a := 1]" xi x_parents] t F[OF len2]
    obtain t1 where t1: "perm_step F x_parents xi (xi[a := 1]) t = (Inr (), t1)"
      "cube_inv t1" "keys_of t1 = insert (xi[a := 1]) (keys_of t)" by blast
    have sub: "xi[a := 1] \<in> keys_of t1" "set (x_parents @ [xi]) \<subseteq> keys_of t1"
      using t1(3) t by auto
    from "1.IH"[OF a al t1(1) F t1(2) len2 sub] obtain t' where
      t': "perm F d (i_parents @ [a]) (x_parents @ [xi]) (xi[a := 1]) t1 = (Inr (), t')"
      "cube_inv t'" "keys_of t' = keys_of t1 \<union> above d (i_parents @ [a]) (xi[a := 1])"
      by blast
    have "?body a t = (Inr (), t')" using al t1(1) t'(1) by (simp add: bind_def)
    moreover have "keys_of t' = keys_of t \<union> ?G a" using t'(3) t1(3) by auto
    moreover have "?P t'" using t'(2) t calculation(2) by auto
    ultimately show "\<exists>t'. ?body a t = (Inr (), t') \<and> ?P t' \<and> keys_of t' = keys_of t \<union> ?G a"
      by blast
  qed
  then obtain s' where s': "for_each ?xs ?body s = (Inr (), s')" "cube_inv s'"
    "keys_of s' = keys_of s \<union> (\<Union>a\<in>set ?xs. ?G a)" by blast
  have "set ?xs = {0..<d} - set i_parents" by auto
  then have "keys_of s' = keys_of s \<union> above d i_parents xi"
    using s'(3) above_step[where d = d and i_parents = i_parents and xi = xi] by simp
  moreover have "perm F d i_parents x_parents xi s = (Inr (), s')"
    using s'(1) by (simp add: perm.simps)
  ultimately show ?case using s'(2) by blast
qed

lemma chain_last: "i_s + 1 = d \<Longrightarrow> chain d i_s xi = {xi[i_s := 1]}"
proof -
  assume d: "i_s + 1 = d"
  then have "{j. i_s < j \<and> j \<le> d} = {d}" by auto
  moreover have "{i_s..<d} = {i_s}" using d by auto
  ultimately show ?thesis by (simp add: chain_def ones_single)
qed

lemma chain_step:
  assumes "i_s + 1 < d"
  shows "insert (xi[i_s := 1]) (chain d (i_s + 1) (xi[i_s := 1])) = chain d i_s xi"
proof -
  have split: "{j. i_s < j \<and> j \<le> d} = insert (i_s + 1) {j. i_s + 1 < j \<and> j \<le> d}"
    using assms by auto
  have more: "ones {i_s + 1..<j} (xi[i_s := 1]) = ones {i_s..<j} xi" if "i_s + 1 < j" for j
  proof -
    have "{i_s + 1..<j} \<union> {i_s} = {i_s..<j}" using that by auto
    then show ?thesis by (simp add: ones_single ones_ones)
  qed
  have "chain d (i_s + 1) (xi[i_s := 1]) = (\<lambda>j. ones {i_s..<j} xi) ` {j. i_s + 1 < j \<and> j \<le> d}"
    unfolding chain_def using more by (intro image_cong) auto
  then show ?thesis
    unfolding chain_def[of d i_s xi] split by (simp add: ones_single)
qed

lemma perm_symmetry_ok:
  "(\<And>k. corner d k \<Longrightarrow> \<not> isl (F k)) \<Longrightarrow> cube_inv s \<Longrightarrow> corner d xi \<Longrightarrow> i_s < d \<Longrightarrow>
   xi \<in> keys_of s \<Longrightarrow> set x_parents \<subseteq> keys_of s \<Longrightarrow>
   \<exists>s'. perm_symmetry F d i_s x_parents xi s = (Inr (), s') \<and> cube_inv s' \<and>
        keys_of s' = keys_of s \<union> chain d i_s xi"
proof (induction F d i_s x_parents xi s rule: perm_symmetry.induct)
  case (1 F d i_s x_parents xi s)
  note F = "1.prems"(1)
  have il: "i_s < length xi" using "1.prems"(3,4) by (simp add: corner_def)
  have len2: "corner d (xi[i_s := 1])" using "1.prems"(3) by (rule corner_update)
  from perm_step_ok[of s F "xi[i_s := 1]" xi x_parents] "1.prems"(2,5,6) F[OF len2]
  obtain t1 where t1: "perm_step F x_parents xi (xi[i_s := 1]) s = (Inr (), t1)"
    "cube_inv t1" "keys_of t1 = insert (xi[i_s := 1]) (keys_of s)" by blast
  show ?case
  proof (cases "i_s + 1 = d")
    case True
    have "perm_symmetry F d i_s x_parents xi s = (Inr (), t1)"
      using il t1(1) True by (subst perm_symmetry.simps) (simp add: bind_def)
    moreover have "keys_of t1 = keys_of s \<union> chain d i_s xi"
      using t1(3) chain_last[OF True, of xi] by simp
    ultimately show ?thesis using t1(2) by blast
  next
    case False
    then have lt: "i_s + 1 < d" using "1.prems"(4) by simp
    have sub: "xi[i_s := 1] \<in> keys_of t1" "set (x_parents @ [xi]) \<subseteq> keys_of t1"
      using t1(3) "1.prems"(5,6) by auto
    from "1.IH"[OF il t1(1) False F t1(2) len2 lt sub] obtain t' where
      t': "perm_symmetry F d (i_s + 1) (x_parents @ [xi]) (xi[i_s := 1]) t1 = (Inr (), t')"
      "cube_inv t'" "keys_of t' = keys_of t1 \<union> chain d (i_s + 1) (xi[i_s := 1])"
      by blast
    have "perm_symmetry F d i_s x_parents xi s = (Inr (), t')"
      using il t1(1) False t'(1) by (subst perm_symmetry.simps) (simp add: bind_def)
    moreover have "keys_of t' = keys_of s \<union> chain d i_s xi"
      using t'(3) t1(3) chain_step[OF lt, of xi] by auto
    ultimately show ?thesis using t'(2) by blast
  qed
qed

lemma n_cube_start:
  "0 \<le> dm \<Longrightarrow>
   n_cube F dm symmetry init_state =
     bind (V_getitem F (replicate (nat dm) 0)) (\<lambda>r.
     bind (C0_add_vertex r) (\<lambda>u.
     bind (V_getitem F (replicate (nat dm) 1)) (\<lambda>r'.
     bind (C0_add_vertex r') (\<lambda>u.
       if symmetry
       then perm_symmetry F (nat dm) 0 [replicate (nat dm) 0] (replicate (nat dm) 0)
       else perm F (nat dm) [] [replicate (nat dm) 0] (replicate (nat dm) 0)))))
     (cube_start (nat dm))"
  by (simp add: n_cube_def bind_def modify_def Cell_init_def init_state_def cube_start_def)

lemma cube_inv_start: "cube_inv (cube_start d)" "keys_of (cube_start d) = {}"
  by (simp_all add: cube_inv_def keys_of_def cube_start_def)

lemma n_cube_ok:
  assumes F: "\<And>k. corner (nat dm) k \<Longrightarrow> \<not> isl (F k)" and dm: "0 \<le> dm"
  shows "\<exists>s. n_cube F dm False init_state = (Inr (), s) \<and> cube_inv s \<and>
             keys_of s = {replicate (nat dm) 0, replicate (nat dm) 1}
                           \<union> above (nat dm) [] (replicate (nat dm) 0)"
proof -
  let ?d = "nat dm"
  let ?o = "replicate ?d (0::rat)" and ?u = "replicate ?d (1::rat)"
  note co = corner_replicate[of ?d]
  from add_key[of "cube_start ?d" F ?o] cube_inv_start F[OF co(1)] obtain r t s1 where
    1: "V_getitem F ?o (cube_start ?d) = (Inr r, t)" "C0_add_vertex r t = (Inr (), s1)"
       "cube_inv s1" "keys_of s1 = {?o}" by auto
  from add_key[of s1 F ?u] 1(3) F[OF co(2)] obtain r' t' s2 where
    2: "V_getitem F ?u s1 = (Inr r', t')" "C0_add_vertex r' t' = (Inr (), s2)"
       "cube_inv s2" "keys_of s2 = insert ?u (keys_of s1)" by auto
  from perm_ok[of ?d F s2 ?o "[?o]" "[]"] F 2(3,4) 1(4) co(1) obtain s3 where
    3: "perm F ?d [] [?o] ?o s2 = (Inr (), s3)" "cube_inv s3"
       "keys_of s3 = keys_of s2 \<union> above ?d [] ?o" by auto
  have "n_cube F dm False init_state = (Inr (), s3)"
    by (simp add: n_cube_start[OF dm] bind_def 1(1,2) 2(1,2) 3(1))
  then show ?thesis using 3(2,3) 2(4) 1(4) by auto
qed

lemma n_cube_symmetry_ok:
  assumes F: "\<And>k. corner (nat dm) k \<Longrightarrow> \<not> isl (F k)" and dm: "0 < dm"
  shows "\<exists>s. n_cube F dm True init_state = (Inr (), s) \<and> cube_inv s \<and>
             keys_of s = {replicate (nat dm) 0, replicate (nat dm) 1}
                           \<union> chain (nat dm) 0 (replicate (nat dm) 0)"
proof -
  let ?d = "nat dm"
  let ?o = "replicate ?d (0::rat)" and ?u = "replicate ?d (1::rat)"
  note co = corner_replicate[of ?d]
  from add_key[of "cube_start ?d" F ?o] cube_inv_start F[OF co(1)] obtain r t s1 where
    1: "V_getitem F ?o (cube_start ?d) = (Inr r, t)" "C0_add_vertex r t = (Inr (), s1)"
       "cube_inv s1" "keys_of s1 = {?o}" by auto
  from add_key[of s1 F ?u] 1(3) F[OF co(2)] obtain r' t' s2 where
    2: "V_getitem F ?u s1 = (Inr r', t')" "C0_add_vertex r' t' = (Inr (), s2)"
       "cube_inv s2" "keys_of s2 = insert ?u (keys_of s1)" by auto
  have pos: "0 < ?d" using dm by simp
  from perm_symmetry_ok[of ?d F s2 ?o 0 "[?o]"] F 2(3,4) 1(4) pos co(1) obtain s3 where
    3: "perm_symmetry F ?d 0 [?o] ?o s2 = (Inr (), s3)" "cube_inv s3"
       "keys_of s3 = keys_of s2 \<union> chain ?d 0 ?o" by auto
  have dm': "0 \<le> dm" using dm by simp
  have "n_cube F dm True init_state = (Inr (), s3)"
    by (simp add: n_cube_start[OF dm'] bind_def 1(1,2) 2(1,2) 3(1))
  then show ?thesis using 3(2,3) 2(4) 1(4) by auto
qed


lemma cube_inv_fields:
  assumes "cube_inv s" and "cx_C0 s' = cx_C0 s" and "length (cx_cells s') = length (cx_cells s)"
    and "c_C (cx_cells s' ! cx_C0 s) = c_C (cx_cells s ! cx_C0 s)"
    and "cx_vertices s' = cx_vertices s" and "cx_cache s' = cx_cache s"
    and "cx_Index s' = cx_Index s"
  shows "cube_inv s'"
  using assms by (simp add: cube_inv_def)

lemma minimiser_inv:
  assumes "cube_inv s" and "a < length (cx_vertices s)"
  shows "\<exists>m s'. minimiser a s = (Inr m, s') \<and> cube_inv s' \<and>
           map v_x (cx_vertices s') = map v_x (cx_vertices s) \<and>
           cx_cells s' = cx_cells s \<and> cx_C0 s' = cx_C0 s"
proof -
  let ?s' = "snd (minimiser a s)"
  have f: "v_x (cx_vertices ?s' ! i) = v_x (cx_vertices s ! i)"
    "v_I (cx_vertices ?s' ! i) = v_I (cx_vertices s ! i)"
    "cx_cells ?s' = cx_cells s" "cx_cache ?s' = cx_cache s" "cx_C0 ?s' = cx_C0 s"
    "cx_Index ?s' = cx_Index s" for i
    by (simp_all add: minimiser_def Let_def upd_vertex_nth split: option.splits)
  have xs: "map v_x (cx_vertices ?s') = map v_x (cx_vertices s)"
    by (rule nth_equalityI) (simp_all add: f)
  have "v_check_min (cx_vertices s ! a) \<or> v_min (cx_vertices s ! a) \<noteq> None"
    using assms by (simp add: cube_inv_def)
  from minimiser_ok[OF this] obtain m where m: "fst (minimiser a s) = Inr m" by blast
  have "cube_inv ?s'"
  proof (rule cube_invI)
    show "cx_C0 ?s' < length (cx_cells ?s')" using assms(1) by (simp add: f cube_inv_def)
    show "c_C (cx_cells ?s' ! cx_C0 ?s') = [0..<length (cx_vertices ?s')]"
      using assms(1) by (simp add: f cube_inv_def)
    show "cx_cache ?s' = zip (map v_x (cx_vertices ?s')) [0..<length (cx_vertices ?s')]"
      using assms(1) by (simp add: f xs cube_inv_def)
    show "distinct (map v_x (cx_vertices ?s'))" using assms(1) by (simp add: xs cube_inv_def)
    show "cx_Index ?s' = int (length (cx_vertices ?s')) - 1"
      using assms(1) by (simp add: f cube_inv_def)
    show "v_I (cx_vertices ?s' ! i) = int i" if "i < length (cx_vertices ?s')" for i
      using assms(1) that by (simp add: f cube_inv_def)
    show "j < length (cx_vertices ?s')"
      if "i < length (cx_vertices ?s')" "j \<in> set (v_nn (cx_vertices ?s' ! i))" for i j
      using assms(1) that by (simp add: cube_inv_def)
    show "v_check_min (cx_vertices ?s' ! i) \<or> v_min (cx_vertices ?s' ! i) \<noteq> None"
      if "i < length (cx_vertices ?s')" for i
      using assms(1) that by (intro minimiser_flags) (simp add: cube_inv_def)
  qed
  moreover have "minimiser a s = (Inr m, ?s')" using m by (simp add: prod_eq_iff)
  ultimately show ?thesis using xs f(3,5) by blast
qed

lemma count_minimisers_inv:
  "cube_inv s \<Longrightarrow> \<forall>a\<in>set vs. a < length (cx_vertices s) \<Longrightarrow>
   \<exists>n s'. count_minimisers vs k s = (Inr n, s') \<and> cube_inv s' \<and>
          map v_x (cx_vertices s') = map v_x (cx_vertices s) \<and>
          cx_cells s' = cx_cells s \<and> cx_C0 s' = cx_C0 s"
proof (induction vs arbitrary: k s)
  case Nil
  then show ?case by simp
next
  case (Cons v vs)
  from minimiser_inv[of s v] Cons.prems obtain m t where
    t: "minimiser v s = (Inr m, t)" "cube_inv t"
       "map v_x (cx_vertices t) = map v_x (cx_vertices s)"
       "cx_cells t = cx_cells s" "cx_C0 t = cx_C0 s" by auto
  have len: "length (cx_vertices t) = length (cx_vertices s)"
    using t(3) by (metis length_map)
  then have "\<forall>a\<in>set vs. a < length (cx_vertices t)" using Cons.prems(2) by simp
  from Cons.IH[OF t(2) this, of "if m then k + 1 else k"] obtain n s' where
    "count_minimisers vs (if m then k + 1 else k) t = (Inr n, s')" "cube_inv s'"
    "map v_x (cx_vertices s') = map v_x (cx_vertices t)"
    "cx_cells s' = cx_cells t" "cx_C0 s' = cx_C0 t" by blast
  then show ?case using t by simp
qed

lemma homology_group_rank_inv:
  assumes "cube_inv s"
  shows "\<exists>n s'. homology_group_rank (cx_C0 s) s = (Inr n, s') \<and> cube_inv s' \<and>
           keys_of s' = keys_of s"
proof (cases "c_hg_n (cx_cells s ! cx_C0 s)")
  case (Some n)
  then show ?thesis using assms by (simp add: homology_group_rank_def)
next
  case None
  have "\<forall>a\<in>set (c_C (cx_cells s ! cx_C0 s)). a < length (cx_vertices s)"
    using assms by (simp add: cube_inv_def)
  from count_minimisers_inv[OF assms this, of 0] obtain n t where
    t: "count_minimisers (c_C (cx_cells s ! cx_C0 s)) 0 s = (Inr n, t)" "cube_inv t"
       "map v_x (cx_vertices t) = map v_x (cx_vertices s)"
       "cx_cells t = cx_cells s" "cx_C0 t = cx_C0 s" by blast
  let ?s' = "upd_cell (cx_C0 s) (\<lambda>w. w\<lparr>c_hg_n := Some n\<rparr>) t"
  have "cube_inv ?s'"
    using t(2) by (rule cube_inv_fields) (simp_all add: upd_cell_nth t)
  moreover have "keys_of ?s' = keys_of s" using t(3) by (simp add: keys_of_def)
  moreover have "homology_group_rank (cx_C0 s) s = (Inr n, ?s')"
    using None t(1) by (simp add: homology_group_rank_def)
  ultimately show ?thesis by blast
qed

lemma Complex_init_rest:
  assumes n: "n_cube F dm symmetry init_state = (Inr (), s)" and inv: "cube_inv s"
    and ne: "keys_of s \<noteq> {}"
  shows "\<exists>s'. Complex_init F dm symmetry = (Inr (), s') \<and> cube_inv s' \<and>
              keys_of s' = keys_of s \<and> cx_graph s' = template_of s'"
proof -
  let ?n = "length (cx_vertices s)"
  have pos: "0 < ?n" using ne by (simp add: keys_of_def)
  have C: "c_C (cx_cells s ! cx_C0 s) = [0..<?n]" using inv by (simp add: cube_inv_def)
  obtain s1 where s1: "(if symmetry then set_symmetry_centroid else lift (Inr ())) s = (Inr (), s1)"
    "cube_inv s1" "keys_of s1 = keys_of s"
  proof (cases symmetry)
    case False
    then show ?thesis using that[of s] inv by (simp add: lift_def)
  next
    case True
    let ?k = "v_x (cx_vertices s ! (?n - 1))"
    let ?t = "upd_cell (cx_C0 s) (\<lambda>w. w\<lparr>c_centroid := Some ?k\<rparr>) (s\<lparr>cx_centroid := Some ?k\<rparr>)"
    from pos obtain m where m: "?n = Suc m" by (auto simp: gr0_conv_Suc)
    have g: "py_get [0..<?n] (- 1) = Inr (?n - 1)"
      unfolding m by (simp add: py_get_def nth_append)
    have "set_symmetry_centroid s = (Inr (), ?t)"
      by (simp add: set_symmetry_centroid_def bind_def gets_def lift_def modify_def C g)
    moreover have "cube_inv ?t"
      using inv by (rule cube_inv_fields) (simp_all add: upd_cell_nth)
    moreover have "keys_of ?t = keys_of s" by (simp add: keys_of_def)
    ultimately show ?thesis using that[of ?t] True by simp
  qed
  let ?s2 = "s1\<lparr>cx_H := (cx_H s1 @ [[]])[0 := (cx_H s1 @ [[]]) ! 0 @ [cx_C0 s1]]\<rparr>"
  have s2: "store_C0 s1 = (Inr (), ?s2)"
    by (simp add: store_C0_def bind_def modify_def)
  have inv2: "cube_inv ?s2" using s1(2) by (rule cube_inv_fields) simp_all
  have c2: "cx_C0 ?s2 = cx_C0 s1" by simp
  from homology_group_rank_inv[OF inv2] obtain n s3 where
    s3: "homology_group_rank (cx_C0 s1) ?s2 = (Inr n, s3)" "cube_inv s3"
        "keys_of s3 = keys_of ?s2" by (auto simp: c2)
  let ?s4 = "s3\<lparr>cx_hgr := n, cx_hgrd := 0\<rparr>"
  have inv4: "cube_inv ?s4" using s3(2) by (rule cube_inv_fields) simp_all
  let ?s5 = "?s4\<lparr>cx_graph := template_of ?s4\<rparr>"
  have g5: "graph_map ?s4 = (Inr (), ?s5)"
    by (simp add: graph_map_def modify_def template_of_def)
  have inv5: "cube_inv ?s5" using inv4 by (rule cube_inv_fields) simp_all
  have "template_of ?s5 = template_of ?s4" by (simp add: template_of_def)
  then have t5: "cx_graph ?s5 = template_of ?s5" by simp
  have k5: "keys_of ?s5 = keys_of s" using s3(3) s1(3) by (simp add: keys_of_def)
  have "Complex_init F dm symmetry = (Inr (), ?s5)"
    unfolding Complex_init_def
    by (simp add: bind_def n s1(1) s2 gets_def s3(1) modify_def g5 del: fun_upd_apply)
  then show ?thesis using inv5 t5 k5 by blast
qed

section \<open>Complex: the number of vertices of the initial cell\<close>

lemma ones_all: "replicate d 1 = ones {0..<d} (replicate d 0)"
  by (rule nth_equalityI) (simp_all add: ones_def)

lemma ones_inj:
  assumes "T \<subseteq> {0..<d}" and "U \<subseteq> {0..<d}"
    and "ones T (replicate d 0) = ones U (replicate d 0)"
  shows "T = U"
proof -
  have "j \<in> T \<longleftrightarrow> j \<in> U" if "j < d" for j
  proof -
    have "ones T (replicate d 0) ! j = ones U (replicate d 0) ! j" using assms(3) by simp
    then show ?thesis using that by (simp add: ones_nth split: if_splits)
  qed
  then show ?thesis using assms(1,2) by (auto simp: subset_eq)
qed

lemma corners_image:
  "{replicate d 0, replicate d 1} \<union> above d [] (replicate d 0)
     = (\<lambda>T. ones T (replicate d 0)) ` Pow {0..<d}"
proof -
  let ?o = "replicate d (0::rat)"
  have "Pow {0..<d} = {{}, {0..<d}} \<union> {T. T \<subseteq> {0..<d} \<and> T \<noteq> {}}" by auto
  then have "(\<lambda>T. ones T ?o) ` Pow {0..<d}
      = {ones {} ?o, ones {0..<d} ?o} \<union> (\<lambda>T. ones T ?o) ` {T. T \<subseteq> {0..<d} \<and> T \<noteq> {}}"
    by (simp only: image_Un image_insert image_empty)
  then show ?thesis by (simp add: above_def ones_all[symmetric])
qed

lemma card_corners:
  "card ({replicate d 0, replicate d 1} \<union> above d [] (replicate d 0)) = 2 ^ d"
proof -
  have "inj_on (\<lambda>T. ones T (replicate d 0)) (Pow {0..<d})"
    by (rule inj_onI) (rule ones_inj[of _ d], simp_all)
  then have "card ((\<lambda>T. ones T (replicate d 0)) ` Pow {0..<d}) = card (Pow {0..<d})"
    by (rule card_image)
  then show ?thesis unfolding corners_image by (simp add: card_Pow)
qed

lemma chain_image:
  "{replicate d 0, replicate d 1} \<union> chain d 0 (replicate d 0)
     = (\<lambda>j. ones {0..<j} (replicate d 0)) ` {0..d}"
proof -
  let ?o = "replicate d (0::rat)"
  have "{0..d} = {0, d} \<union> {j. 0 < j \<and> j \<le> d}" by auto
  then have "(\<lambda>j. ones {0..<j} ?o) ` {0..d}
      = {ones {0..<0} ?o, ones {0..<d} ?o} \<union> (\<lambda>j. ones {0..<j} ?o) ` {j. 0 < j \<and> j \<le> d}"
    by (simp only: image_Un image_insert image_empty)
  then show ?thesis by (simp add: chain_def ones_all[symmetric])
qed

lemma card_chain:
  "card ({replicate d 0, replicate d 1} \<union> chain d 0 (replicate d 0)) = d + 1"
proof -
  have "inj_on (\<lambda>j. ones {0..<j} (replicate d 0)) {0..d}"
  proof (rule inj_onI)
    fix j k assume "j \<in> {0..d}" "k \<in> {0..d}"
      and "ones {0..<j} (replicate d 0) = ones {0..<k} (replicate d 0)"
    then have "{0..<j} = {0..<k}" by (intro ones_inj[of _ d]) simp_all
    then have "card {0..<j} = card {0..<k}" by (simp only:)
    then show "j = k" by simp
  qed
  then have "card ((\<lambda>j. ones {0..<j} (replicate d 0)) ` {0..d}) = card {0..d}"
    by (rule card_image)
  then show ?thesis unfolding chain_image by simp
qed

lemma cube_inv_counts:
  assumes "cube_inv s"
  shows "length (cx_vertices s) = card (keys_of s)"
    and "length (cx_cache s) = card (keys_of s)"
    and "distinct (map fst (cx_cache s))"
    and "map snd (cx_cache s) = c_C (cx_cells s ! cx_C0 s)"
    and "distinct (c_C (cx_cells s ! cx_C0 s))"
    and "length (c_C (cx_cells s ! cx_C0 s)) = card (keys_of s)"
    and "cx_Index s + 1 = int (card (keys_of s))"
proof -
  have d: "distinct (map v_x (cx_vertices s))" using assms by (simp add: cube_inv_def)
  from distinct_card[OF d] show n: "length (cx_vertices s) = card (keys_of s)"
    by (simp add: keys_of_def)
  have c: "cx_cache s = zip (map v_x (cx_vertices s)) [0..<length (cx_vertices s)]"
    using assms by (simp add: cube_inv_def)
  show "length (cx_cache s) = card (keys_of s)" using n by (simp add: c)
  show "distinct (map fst (cx_cache s))" using d by (simp add: c)
  show "map snd (cx_cache s) = c_C (cx_cells s ! cx_C0 s)" using assms by (simp add: c cube_inv_def)
  show "distinct (c_C (cx_cells s ! cx_C0 s))" using assms by (simp add: cube_inv_def)
  show "length (c_C (cx_cells s ! cx_C0 s)) = card (keys_of s)"
    using assms n by (simp add: cube_inv_def)
  show "cx_Index s + 1 = int (card (keys_of s))" using assms n by (simp add: cube_inv_def)
qed


lemma Complex_init_ok:
  assumes F: "\<And>k. corner (nat dm) k \<Longrightarrow> \<not> isl (F k)" and dm: "0 \<le> dm"
  shows "\<exists>s. Complex_init F dm False = (Inr (), s) \<and> cube_inv s \<and>
             card (keys_of s) = 2 ^ nat dm \<and> cx_graph s = template_of s"
proof -
  from n_cube_ok[of dm F, OF F dm] obtain s where
    s: "n_cube F dm False init_state = (Inr (), s)" "cube_inv s"
       "keys_of s = {replicate (nat dm) 0, replicate (nat dm) 1}
                      \<union> above (nat dm) [] (replicate (nat dm) 0)" by blast
  have ne: "keys_of s \<noteq> {}" using s(3) by simp
  from Complex_init_rest[OF s(1,2) ne] obtain s' where
    "Complex_init F dm False = (Inr (), s')" "cube_inv s'" "keys_of s' = keys_of s"
    "cx_graph s' = template_of s'" by blast
  then show ?thesis using s(3) card_corners[of "nat dm"] by auto
qed

lemma Complex_init_symmetry_ok:
  assumes F: "\<And>k. corner (nat dm) k \<Longrightarrow> \<not> isl (F k)" and dm: "0 < dm"
  shows "\<exists>s. Complex_init F dm True = (Inr (), s) \<and> cube_inv s \<and>
             card (keys_of s) = nat dm + 1"
proof -
  from n_cube_symmetry_ok[of dm F, OF F dm] obtain s where
    s: "n_cube F dm True init_state = (Inr (), s)" "cube_inv s"
       "keys_of s = {replicate (nat dm) 0, replicate (nat dm) 1}
                      \<union> chain (nat dm) 0 (replicate (nat dm) 0)" by blast
  have ne: "keys_of s \<noteq> {}" using s(3) by simp
  from Complex_init_rest[OF s(1,2) ne] obtain s' where
    "Complex_init F dm True = (Inr (), s')" "cube_inv s'" "keys_of s' = keys_of s"
    "cx_graph s' = template_of s'" by blast
  then show ?thesis using s(3) card_chain[of "nat dm"] by auto
qed

lemma carries_refl: "carries m m"
  by (simp add: carries_def)

lemma carries_bind:
  assumes "carries m m'" and "\<And>a. carries (k a) (k' a)"
  shows "carries (bind m k) (bind m' k')"
  unfolding carries_def
proof (intro allI impI)
  fix s b s'
  assume r: "bind m k s = (Inr b, s')"
  obtain r1 s1 where m: "m s = (r1, s1)" by (cases "m s")
  from r m obtain a where a: "r1 = Inr a" "k a s1 = (Inr b, s')"
    by (cases r1) (auto simp: bind_def)
  from assms(1) m a(1) have "m' s = (Inr a, s1)" by (simp add: carries_def)
  moreover from assms(2)[of a] a(2) have "k' a s1 = (Inr b, s')" by (simp add: carries_def)
  ultimately show "bind m' k' s = (Inr b, s')" by (simp add: bind_def)
qed

lemma carries_for_each:
  assumes "\<And>a. a \<in> set xs \<Longrightarrow> carries (body a) (body' a)"
  shows "carries (for_each xs body) (for_each xs body')"
  using assms
proof (induction xs)
  case Nil
  show ?case by (simp add: carries_def)
next
  case (Cons x xs)
  have e: "for_each (x # xs) b = bind (b x) (\<lambda>u. for_each xs b)" for b :: "'a \<Rightarrow> unit M"
    by (rule ext) (simp add: bind_def)
  have "carries (bind (body x) (\<lambda>u. for_each xs body)) (bind (body' x) (\<lambda>u. for_each xs body'))"
    using Cons by (intro carries_bind) simp_all
  then show ?case by (simp only: e)
qed

lemma carries_if:
  "carries m1 m1' \<Longrightarrow> carries m2 m2' \<Longrightarrow>
   carries (if c then m1 else m2) (if c then m1' else m2')"
  by simp

lemma completed_returns [simp]: "\<not> isl (completed F k)"
  by (simp add: completed_def split: sum.splits)

lemma carries_V_getitem: "carries (V_getitem F k) (V_getitem (completed F) k)"
  by (auto simp: carries_def V_getitem_def Vertex_init_def Let_def completed_def
      split: option.splits sum.splits prod.splits)

lemma carries_perm_step:
  "carries (perm_step F x_parents xi xi2) (perm_step (completed F) x_parents xi xi2)"
  unfolding perm_step_def
  by (intro carries_bind carries_for_each carries_V_getitem carries_refl)

lemma perm_unfold:
  "perm G d i_parents x_parents xi =
     for_each (filter (\<lambda>x. x \<notin> set i_parents) [0..<d])
       (\<lambda>i. if i < length xi
            then bind (perm_step G x_parents xi (xi[i := 1]))
                   (\<lambda>u. perm G d (i_parents @ [i]) (x_parents @ [xi]) (xi[i := 1]))
            else lift (Inl IndexError))"
  by (rule ext, subst perm.simps, rule for_each_cong) (simp_all add: lift_def)

lemma carries_perm:
  "carries (perm F d i_parents x_parents xi) (perm (completed F) d i_parents x_parents xi)"
proof (induction "card ({0..<d} - set i_parents)" arbitrary: i_parents x_parents xi
    rule: less_induct)
  case less
  let ?xs = "filter (\<lambda>x. x \<notin> set i_parents) [0..<d]"
  let ?b = "\<lambda>G i. if i < length xi
            then bind (perm_step G x_parents xi (xi[i := 1]))
                   (\<lambda>u. perm G d (i_parents @ [i]) (x_parents @ [xi]) (xi[i := 1]))
            else lift (Inl IndexError)"
  have "carries (for_each ?xs (?b F)) (for_each ?xs (?b (completed F)))"
  proof (rule carries_for_each)
    fix i assume "i \<in> set ?xs"
    then have i: "i < d" "i \<notin> set i_parents" by auto
    have "{0..<d} - set (i_parents @ [i]) \<subseteq> {0..<d} - set i_parents" by auto
    moreover have "i \<in> {0..<d} - set i_parents" "i \<notin> {0..<d} - set (i_parents @ [i])"
      using i by simp_all
    ultimately have "{0..<d} - set (i_parents @ [i]) \<subset> {0..<d} - set i_parents" by blast
    then have "card ({0..<d} - set (i_parents @ [i])) < card ({0..<d} - set i_parents)"
      by (intro psubset_card_mono) auto
    from less[OF this] show "carries (?b F i) (?b (completed F) i)"
      by (intro carries_if carries_bind carries_perm_step carries_refl)
  qed
  then show ?case
    by (simp only: perm_unfold[of F d i_parents x_parents xi]
        perm_unfold[of "completed F" d i_parents x_parents xi])
qed

lemma perm_symmetry_unfold:
  "perm_symmetry G d i_s x_parents xi =
     (if i_s < length xi
      then bind (perm_step G x_parents xi (xi[i_s := 1]))
             (\<lambda>u. if i_s + 1 = d then lift (Inr ())
                  else perm_symmetry G d (i_s + 1) (x_parents @ [xi]) (xi[i_s := 1]))
      else lift (Inl IndexError))"
  by (rule ext, subst perm_symmetry.simps)
     (auto simp: lift_def bind_def split: prod.splits sum.splits)

lemma carries_perm_symmetry:
  "carries (perm_symmetry F d i_s x_parents xi) (perm_symmetry (completed F) d i_s x_parents xi)"
proof (induction "length xi - i_s" arbitrary: i_s x_parents xi rule: less_induct)
  case less
  show ?case
  proof (cases "i_s < length xi")
    case False
    then show ?thesis
      by (simp add: perm_symmetry_unfold[of _ d i_s x_parents xi] carries_refl)
  next
    case True
    then have "length (xi[i_s := 1]) - (i_s + 1) < length xi - i_s" by simp
    from less[OF this]
    have "carries (perm_symmetry F d (i_s + 1) (x_parents @ [xi]) (xi[i_s := 1]))
            (perm_symmetry (completed F) d (i_s + 1) (x_parents @ [xi]) (xi[i_s := 1]))" .
    then have "carries
       (bind (perm_step F x_parents xi (xi[i_s := 1]))
             (\<lambda>u. if i_s + 1 = d then lift (Inr ())
                  else perm_symmetry F d (i_s + 1) (x_parents @ [xi]) (xi[i_s := 1])))
       (bind (perm_step (completed F) x_parents xi (xi[i_s := 1]))
             (\<lambda>u. if i_s + 1 = d then lift (Inr ())
                  else perm_symmetry (completed F) d (i_s + 1) (x_parents @ [xi]) (xi[i_s := 1])))"
      by (intro carries_bind carries_if carries_perm_step carries_refl)
    then show ?thesis
      using True
      by (simp add: perm_symmetry_unfold[of F d i_s x_parents xi]
          perm_symmetry_unfold[of "completed F" d i_s x_parents xi])
  qed
qed

lemma carries_n_cube: "carries (n_cube F dm symmetry) (n_cube (completed F) dm symmetry)"
  unfolding n_cube_def
  by (intro carries_if carries_bind carries_V_getitem carries_perm carries_perm_symmetry
      carries_refl)

lemma Complex_init_completed:
  assumes "Complex_init F dm symmetry = (Inr (), s)"
  shows "Complex_init (completed F) dm symmetry = (Inr (), s)"
proof -
  have "carries
     (bind (n_cube F dm symmetry) (\<lambda>u.
      bind (if symmetry then set_symmetry_centroid else lift (Inr ())) (\<lambda>u.
      bind store_C0 (\<lambda>u.
      bind (gets cx_C0) (\<lambda>c.
      bind (homology_group_rank c) (\<lambda>n.
      bind (modify (\<lambda>s. s\<lparr>cx_hgr := n, cx_hgrd := 0\<rparr>)) (\<lambda>u.
      graph_map)))))))
     (bind (n_cube (completed F) dm symmetry) (\<lambda>u.
      bind (if symmetry then set_symmetry_centroid else lift (Inr ())) (\<lambda>u.
      bind store_C0 (\<lambda>u.
      bind (gets cx_C0) (\<lambda>c.
      bind (homology_group_rank c) (\<lambda>n.
      bind (modify (\<lambda>s. s\<lparr>cx_hgr := n, cx_hgrd := 0\<rparr>)) (\<lambda>u.
      graph_map)))))))"
    by (intro carries_bind carries_n_cube carries_refl)
  then show ?thesis using assms unfolding Complex_init_def carries_def by blast
qed

lemma Complex_init_negative: "dm < 0 \<Longrightarrow> Complex_init F dm symmetry = (Inl ValueError, init_state)"
  by (simp add: Complex_init_def n_cube_def bind_def lift_def)

lemma Complex_init_zero_symmetry: "isl (fst (Complex_init F 0 True))"
  by (cases "F []")
     (simp_all add: Complex_init_def n_cube_def bind_def Cell_init_def V_getitem_def
        Vertex_init_def init_state_def C0_add_vertex_def add_vertex_def upd_cell_def Let_def
        lift_def gets_def modify_def perm_symmetry.simps)

lemma Complex_init_returned:
  assumes "Complex_init F dm False = (Inr (), s)"
  shows "0 \<le> dm" and "cube_inv s" and "card (keys_of s) = 2 ^ nat dm"
    and "cx_graph s = template_of s"
proof -
  show dm: "0 \<le> dm" using assms Complex_init_negative[of dm F False] by (cases "dm < 0") auto
  from Complex_init_ok[of dm "completed F", OF _ dm] obtain s' where
    s': "Complex_init (completed F) dm False = (Inr (), s')" "cube_inv s'"
        "card (keys_of s') = 2 ^ nat dm" "cx_graph s' = template_of s'" by auto
  with Complex_init_completed[OF assms] have "s' = s" by simp
  with s' show "cube_inv s" "card (keys_of s) = 2 ^ nat dm" "cx_graph s = template_of s"
    by simp_all
qed

lemma Complex_init_symmetry_returned:
  assumes "Complex_init F dm True = (Inr (), s)"
  shows "0 < dm" and "cube_inv s" and "card (keys_of s) = nat dm + 1"
proof -
  have "dm \<noteq> 0" using assms Complex_init_zero_symmetry[of F] by auto
  then show dm: "0 < dm" using assms Complex_init_negative[of dm F True] by (cases "dm < 0") auto
  from Complex_init_symmetry_ok[of dm "completed F", OF _ dm] obtain s' where
    s': "Complex_init (completed F) dm True = (Inr (), s')" "cube_inv s'"
        "card (keys_of s') = nat dm + 1" by auto
  with Complex_init_completed[OF assms] have "s' = s" by simp
  with s' show "cube_inv s" "card (keys_of s) = nat dm + 1" by simp_all
qed

text \<open>
  Claim C2, as amended. For every dimension and every objective: whenever the constructor
  returns without symmetry, the complex holds exactly \<open>2 ^ d\<close> vertices with \<open>2 ^ d\<close>
  distinct coordinate keys, the cache holds exactly these keys, each with its own vertex,
  and the initial cell lists every vertex exactly once; whenever it returns with symmetry,
  the same holds with \<open>d + 1\<close> vertices. For a positive dimension the constructor returns,
  with and without symmetry, whenever the objective returns a value at every corner of
  the unit cube.
\<close>

theorem initial_complex_vertex_count:
  "(Complex_init F dm False = (Inr (), s) \<longrightarrow>
      length (cx_vertices s) = 2 ^ nat dm \<and>
      distinct (map v_x (cx_vertices s)) \<and>
      length (cx_cache s) = 2 ^ nat dm \<and>
      distinct (map fst (cx_cache s)) \<and>
      map snd (cx_cache s) = c_C (cx_cells s ! cx_C0 s) \<and>
      distinct (c_C (cx_cells s ! cx_C0 s)) \<and>
      set (c_C (cx_cells s ! cx_C0 s)) = {0..<length (cx_vertices s)}) \<and>
   (Complex_init F dm True = (Inr (), s) \<longrightarrow>
      length (cx_vertices s) = nat dm + 1 \<and>
      distinct (map v_x (cx_vertices s)) \<and>
      length (cx_cache s) = nat dm + 1 \<and>
      distinct (map fst (cx_cache s)) \<and>
      map snd (cx_cache s) = c_C (cx_cells s ! cx_C0 s) \<and>
      distinct (c_C (cx_cells s ! cx_C0 s)) \<and>
      set (c_C (cx_cells s ! cx_C0 s)) = {0..<length (cx_vertices s)}) \<and>
   (0 < dm \<and> (\<forall>k. corner (nat dm) k \<longrightarrow> \<not> isl (F k)) \<longrightarrow>
      fst (Complex_init F dm False) = Inr () \<and> fst (Complex_init F dm True) = Inr ())"
proof (intro conjI impI)
  assume a: "Complex_init F dm False = (Inr (), s)"
  note r = Complex_init_returned[OF a]
  note c = cube_inv_counts[OF r(2)]
  have d: "distinct (map v_x (cx_vertices s))"
    and C: "c_C (cx_cells s ! cx_C0 s) = [0..<length (cx_vertices s)]"
    using r(2) by (simp_all add: cube_inv_def)
  show "length (cx_vertices s) = 2 ^ nat dm" using c(1) r(3) by simp
  show "distinct (map v_x (cx_vertices s))" by (rule d)
  show "length (cx_cache s) = 2 ^ nat dm" using c(2) r(3) by simp
  show "distinct (map fst (cx_cache s))" by (rule c(3))
  show "map snd (cx_cache s) = c_C (cx_cells s ! cx_C0 s)" by (rule c(4))
  show "distinct (c_C (cx_cells s ! cx_C0 s))" by (rule c(5))
  show "set (c_C (cx_cells s ! cx_C0 s)) = {0..<length (cx_vertices s)}" by (simp add: C)
next
  assume a: "Complex_init F dm True = (Inr (), s)"
  note r = Complex_init_symmetry_returned[OF a]
  note c = cube_inv_counts[OF r(2)]
  have d: "distinct (map v_x (cx_vertices s))"
    and C: "c_C (cx_cells s ! cx_C0 s) = [0..<length (cx_vertices s)]"
    using r(2) by (simp_all add: cube_inv_def)
  show "length (cx_vertices s) = nat dm + 1" using c(1) r(3) by simp
  show "distinct (map v_x (cx_vertices s))" by (rule d)
  show "length (cx_cache s) = nat dm + 1" using c(2) r(3) by simp
  show "distinct (map fst (cx_cache s))" by (rule c(3))
  show "map snd (cx_cache s) = c_C (cx_cells s ! cx_C0 s)" by (rule c(4))
  show "distinct (c_C (cx_cells s ! cx_C0 s))" by (rule c(5))
  show "set (c_C (cx_cells s ! cx_C0 s)) = {0..<length (cx_vertices s)}" by (simp add: C)
next
  assume a: "0 < dm \<and> (\<forall>k. corner (nat dm) k \<longrightarrow> \<not> isl (F k))"
  then have F: "\<And>k. corner (nat dm) k \<Longrightarrow> \<not> isl (F k)" and dm: "0 < dm" "0 \<le> dm" by auto
  from Complex_init_ok[of dm F, OF F dm(2)]
  show "fst (Complex_init F dm False) = Inr ()" by auto
  from Complex_init_symmetry_ok[of dm F, OF F dm(1)]
  show "fst (Complex_init F dm True) = Inr ()" by auto
qed

theorem initial_complex_vertex_count_witness:
  "(0::int) < 3 \<and>
   fst (Complex_init test_func 3 False) = Inr () \<and>
   fst (Complex_init test_func 3 True) = Inr () \<and>
   length (cx_vertices (snd (Complex_init test_func 3 False))) = 8 \<and>
   length (cx_cache (snd (Complex_init test_func 3 False))) = 8 \<and>
   length (cx_vertices (snd (Complex_init test_func 3 True))) = 4 \<and>
   length (cx_cache (snd (Complex_init test_func 3 True))) = 4"
proof -
  have F: "\<not> isl (test_func k)" if "corner (nat 3) k" for k
    using that by (cases k) (simp_all add: test_func_def corner_def)
  then have h: "(0::int) < 3 \<and> (\<forall>k. corner (nat 3) k \<longrightarrow> \<not> isl (test_func k))" by simp
  from initial_complex_vertex_count[where F = test_func and dm = 3] h
  have r: "fst (Complex_init test_func 3 False) = Inr ()"
    "fst (Complex_init test_func 3 True) = Inr ()" by blast+
  then have e: "Complex_init test_func 3 False = (Inr (), snd (Complex_init test_func 3 False))"
    "Complex_init test_func 3 True = (Inr (), snd (Complex_init test_func 3 True))"
    by (simp_all add: prod_eq_iff)
  from initial_complex_vertex_count[where F = test_func and dm = 3
      and s = "snd (Complex_init test_func 3 False)"] e(1)
  have a: "length (cx_vertices (snd (Complex_init test_func 3 False))) = 2 ^ nat 3"
    "length (cx_cache (snd (Complex_init test_func 3 False))) = 2 ^ nat 3" by blast+
  from initial_complex_vertex_count[where F = test_func and dm = 3
      and s = "snd (Complex_init test_func 3 True)"] e(2)
  have b: "length (cx_vertices (snd (Complex_init test_func 3 True))) = nat 3 + 1"
    "length (cx_cache (snd (Complex_init test_func 3 True))) = nat 3 + 1" by blast+
  show ?thesis using r a b by simp
qed

text \<open>
  The claim as stated fails for an objective that raises at a corner: in dimension 2 with
  an objective that raises at \<open>(1, 1)\<close> the constructor raises that exception, with and
  without symmetry, having created one vertex, and no complex is stored.
\<close>

theorem initial_complex_raising_corner_counterexample:
  "corner 2 [1, 1] \<and> corner_failing_func [1, 1] = Inl FuncError \<and>
   fst (Complex_init corner_failing_func 2 False) = Inl FuncError \<and>
   length (cx_vertices (snd (Complex_init corner_failing_func 2 False))) = 1 \<and>
   cx_H (snd (Complex_init corner_failing_func 2 False)) = [] \<and>
   fst (Complex_init corner_failing_func 2 True) = Inl FuncError \<and>
   length (cx_vertices (snd (Complex_init corner_failing_func 2 True))) = 1"
  by code_simp

section \<open>Complex: the adjacency template\<close>




















end
